theory Spec2Isabelle
  imports Complex_Main
begin

section \<open>Conventions\<close>

text \<open>
  The merge operators of \<^verbatim>\<open>sd_mecha/merge_methods/__init__.py\<close> work on dense
  floating-point tensors and on Python floats. A finite value is modelled by a
  \<^typ>\<open>real\<close>; the special values that the code tests for or sanitises
  (\<^verbatim>\<open>nan_to_num\<close>, \<^verbatim>\<open>isnan\<close>) are explicit in the type \<open>fval\<close> below. Where the
  rounding or the range of the machine format decides what a function returns, its model
  rounds every operation to the format (section \<open>Rounding to the machine formats\<close>):
  this is so for \<^verbatim>\<open>ratio_to_region\<close> and for \<open>weighted_sum_rounded\<close>. The model of
  \<^verbatim>\<open>slerp\<close> keeps the overflow of the format only, and the remaining models compute
  exactly on the finite values, with the infinities and NaN of a division by zero. An
  operator that works element by element is modelled on the flattened element lists of
  its operands, which have a common shape; where the shape decides the control flow the
  tensor is a record of shape and data. A raised exception is a value \<open>Inl e\<close> of the
  result.
\<close>

datatype error = ValueError | IndexError | RuntimeError | ZeroDivisionError | OverflowError

record tensor =
  shape :: "nat list"
  data :: "real list"

subsection \<open>Python number conversions\<close>

text \<open>\<^verbatim>\<open>int(x)\<close> on a float truncates towards zero.\<close>

definition py_int :: "real \<Rightarrow> int" where
  "py_int x = (if 0 \<le> x then \<lfloor>x\<rfloor> else \<lceil>x\<rceil>)"

text \<open>\<^verbatim>\<open>round(x)\<close> with one argument rounds to the nearest integer, halves to even.\<close>

definition py_round :: "real \<Rightarrow> int" where
  "py_round x =
     (let f = \<lfloor>x\<rfloor>; d = x - of_int f
      in if d < 1 / 2 then f
         else if 1 / 2 < d then f + 1
         else if even f then f else f + 1)"

section \<open>Numeric kernel primitives\<close>

text \<open>\<^verbatim>\<open>weighted_sum\<close>: \<^verbatim>\<open>(1 - alpha) * a + alpha * b\<close>, element by element.\<close>

definition weighted_sum :: "real list \<Rightarrow> real list \<Rightarrow> real \<Rightarrow> real list" where
  "weighted_sum a b alpha = map2 (\<lambda>x y. (1 - alpha) * x + alpha * y) a b"

section \<open>Special floating-point values\<close>

text \<open>
  The result of a tensor division, which is where the code can leave the finite values:
  \<open>x / 0\<close> is NaN for \<open>x = 0\<close> and an infinity of the sign of \<open>x\<close> otherwise.
\<close>

datatype fval = Fin real | PInf | NInf | NaN

definition fdiv :: "real \<Rightarrow> real \<Rightarrow> fval" where
  "fdiv x y =
     (if y = 0 then (if x = 0 then NaN else if 0 < x then PInf else NInf)
      else Fin (x / y))"

text \<open>The greatest finite single-precision value, \<open>(2 - 2\<^sup>-\<^sup>2\<^sup>3) * 2\<^sup>1\<^sup>2\<^sup>7\<close>.\<close>

definition float_max :: real where
  "float_max = 340282346638528859811704183484516925440"

text \<open>\<^verbatim>\<open>torch.nan_to_num\<close> with its defaults: NaN becomes 0, the infinities the
  greatest and least finite values.\<close>

fun nan_to_num :: "fval \<Rightarrow> real" where
  "nan_to_num (Fin x) = x"
| "nan_to_num NaN = 0"
| "nan_to_num PInf = float_max"
| "nan_to_num NInf = - float_max"

subsection \<open>Arithmetic with the special values\<close>


fun fadd :: "fval \<Rightarrow> fval \<Rightarrow> fval" where
  "fadd (Fin x) (Fin y) = Fin (x + y)"
| "fadd NaN _ = NaN"
| "fadd _ NaN = NaN"
| "fadd PInf NInf = NaN"
| "fadd NInf PInf = NaN"
| "fadd PInf _ = PInf"
| "fadd _ PInf = PInf"
| "fadd NInf _ = NInf"
| "fadd _ NInf = NInf"


text \<open>An infinity of the sign of \<open>x\<close>, NaN for \<open>x = 0\<close>.\<close>

definition inf_of_sign :: "real \<Rightarrow> fval" where
  "inf_of_sign x = (if x = 0 then NaN else if 0 < x then PInf else NInf)"

fun fmul :: "fval \<Rightarrow> fval \<Rightarrow> fval" where
  "fmul (Fin x) (Fin y) = Fin (x * y)"
| "fmul NaN _ = NaN"
| "fmul _ NaN = NaN"
| "fmul PInf (Fin y) = inf_of_sign y"
| "fmul NInf (Fin y) = inf_of_sign (- y)"
| "fmul (Fin x) PInf = inf_of_sign x"
| "fmul (Fin x) NInf = inf_of_sign (- x)"
| "fmul PInf PInf = PInf"
| "fmul NInf NInf = PInf"
| "fmul PInf NInf = NInf"
| "fmul NInf PInf = NInf"

fun fdivide :: "fval \<Rightarrow> fval \<Rightarrow> fval" where
  "fdivide (Fin x) (Fin y) = fdiv x y"
| "fdivide NaN _ = NaN"
| "fdivide _ NaN = NaN"
| "fdivide (Fin x) PInf = Fin 0"
| "fdivide (Fin x) NInf = Fin 0"
| "fdivide PInf (Fin y) = (if 0 \<le> y then PInf else NInf)"
| "fdivide NInf (Fin y) = (if 0 \<le> y then NInf else PInf)"
| "fdivide PInf PInf = NaN"
| "fdivide PInf NInf = NaN"
| "fdivide NInf PInf = NaN"
| "fdivide NInf NInf = NaN"

fun fsqrt :: "fval \<Rightarrow> fval" where
  "fsqrt (Fin x) = (if x < 0 then NaN else Fin (sqrt x))"
| "fsqrt PInf = PInf"
| "fsqrt NInf = NaN"
| "fsqrt NaN = NaN"


text \<open>The comparison \<open>a \<le> b\<close>: false as soon as one side is NaN.\<close>

fun fle :: "fval \<Rightarrow> fval \<Rightarrow> bool" where
  "fle (Fin x) (Fin y) = (x \<le> y)"
| "fle NaN _ = False"
| "fle _ NaN = False"
| "fle NInf _ = True"
| "fle _ PInf = True"
| "fle PInf _ = False"
| "fle _ NInf = False"




fun is_nan :: "fval \<Rightarrow> bool" where
  "is_nan NaN = True"
| "is_nan _ = False"

fun is_finite :: "fval \<Rightarrow> bool" where
  "is_finite (Fin x) = True"
| "is_finite _ = False"

section \<open>Rounding to the machine formats\<close>

text \<open>
  A binary floating-point format is given by its precision (the number of significand
  bits, the hidden bit included) and its greatest exponent; the least exponent of a
  normal value is \<open>1 - emax\<close>. \<^verbatim>\<open>torch.float32\<close> is \<open>binary32\<close>; a Python \<^verbatim>\<open>float\<close> and
  \<^verbatim>\<open>numpy.float64\<close> are \<open>binary64\<close>.
\<close>

datatype format = Format (precision: nat) (emax: int)

definition binary32 :: format where
  "binary32 = Format 24 127"

definition binary64 :: format where
  "binary64 = Format 53 1023"

definition valid_format :: "format \<Rightarrow> bool" where
  "valid_format fmt \<longleftrightarrow> 0 < precision fmt \<and> int (precision fmt) \<le> emax fmt"

text \<open>The binary exponent of a non-zero real: \<open>2\<^sup>e \<le> \<bar>x\<bar> < 2\<^sup>e\<^sup>+\<^sup>1\<close>.\<close>

definition exponent :: "real \<Rightarrow> int" where
  "exponent x = \<lfloor>log 2 \<bar>x\<bar>\<rfloor>"

text \<open>The spacing of the values of the format around \<open>x\<close>; below the least normal
  exponent it is that of the subnormal values.\<close>

definition quantum :: "format \<Rightarrow> real \<Rightarrow> real" where
  "quantum fmt x = 2 powi (max (exponent x) (1 - emax fmt) - int (precision fmt) + 1)"

text \<open>Rounding to the nearest multiple of the quantum, halves to the even significand.\<close>

definition round_to :: "format \<Rightarrow> real \<Rightarrow> real" where
  "round_to fmt x =
     (if x = 0 then 0 else of_int (py_round (x / quantum fmt x)) * quantum fmt x)"

text \<open>The result of an operation whose exact value is \<open>x\<close>: the rounded value, or an
  infinity when it is beyond the finite range.\<close>

definition rnd :: "format \<Rightarrow> real \<Rightarrow> fval" where
  "rnd fmt x =
     (let r = round_to fmt x
      in if 2 powi (emax fmt + 1) \<le> \<bar>r\<bar> then (if 0 < r then PInf else NInf) else Fin r)"

fun round_fval :: "format \<Rightarrow> fval \<Rightarrow> fval" where
  "round_fval fmt (Fin x) = rnd fmt x"
| "round_fval fmt v = v"

definition radd :: "format \<Rightarrow> fval \<Rightarrow> fval \<Rightarrow> fval" where
  "radd fmt a b = round_fval fmt (fadd a b)"


definition rmul :: "format \<Rightarrow> fval \<Rightarrow> fval \<Rightarrow> fval" where
  "rmul fmt a b = round_fval fmt (fmul a b)"

definition rdivide :: "format \<Rightarrow> fval \<Rightarrow> fval \<Rightarrow> fval" where
  "rdivide fmt a b = round_fval fmt (fdivide a b)"

definition rsqrt :: "format \<Rightarrow> fval \<Rightarrow> fval" where
  "rsqrt fmt a = round_fval fmt (fsqrt a)"

text \<open>The values of a format: what rounding leaves unchanged.\<close>

definition representable :: "format \<Rightarrow> real \<Rightarrow> bool" where
  "representable fmt x \<longleftrightarrow> rnd fmt x = Fin x"

fun finite_float :: "format \<Rightarrow> fval \<Rightarrow> bool" where
  "finite_float fmt (Fin x) = representable fmt x"
| "finite_float fmt v = False"


subsection \<open>Python floats\<close>





text \<open>\<^verbatim>\<open>weighted_sum\<close> on tensors of a format, every operation rounded. \<^verbatim>\<open>1 - alpha\<close> is
  computed on Python floats; a Python scalar that multiplies a tensor is first converted
  to the format of the tensor.\<close>

definition weighted_sum_rounded :: "format \<Rightarrow> fval list \<Rightarrow> fval list \<Rightarrow> real \<Rightarrow> fval list" where
  "weighted_sum_rounded fmt a b alpha =
     (let one_minus_alpha = round_fval fmt (rnd binary64 (1 - alpha));
          alpha1 = rnd fmt alpha
      in map2 (\<lambda>x y. radd fmt (rmul fmt one_minus_alpha x) (rmul fmt alpha1 y)) a b)"

section \<open>Region masking\<close>



section \<open>Tensor helpers\<close>

text \<open>\<^verbatim>\<open>torch.stack(rows, dim=0)\<close> raises on an empty list and on rows of different
  sizes.\<close>

definition stack :: "'a list list \<Rightarrow> error + 'a list list" where
  "stack rows =
     (if rows = [] then Inl RuntimeError
      else if \<forall>r \<in> set rows. length r = length (hd rows) then Inr rows
      else Inl RuntimeError)"

text \<open>\<^verbatim>\<open>torch.sum(stacked, dim=0)\<close> of a stacked, non-empty list of rows.\<close>

definition sum_dim0 :: "real list list \<Rightarrow> real list" where
  "sum_dim0 rows = map (\<lambda>j. \<Sum>r\<leftarrow>rows. r ! j) [0..<length (hd rows)]"

text \<open>\<^verbatim>\<open>torch.kthvalue(xs, k)\<close>: the \<open>k\<close>-th smallest element, counted from 1;
  \<open>k\<close> outside \<open>1..numel\<close> raises.\<close>

definition kthvalue :: "real list \<Rightarrow> int \<Rightarrow> error + real" where
  "kthvalue xs k =
     (if 1 \<le> k \<and> k \<le> int (length xs) then Inr (sort xs ! nat (k - 1))
      else Inl RuntimeError)"

section \<open>Disjoint merge (TIES)\<close>

text \<open>The rank passed to \<^verbatim>\<open>kthvalue\<close> by \<^verbatim>\<open>filter_top_k\<close>:
  \<^verbatim>\<open>max(int((1 - k) * torch.numel(a)), 1)\<close>.\<close>

definition top_k_rank :: "real list \<Rightarrow> real \<Rightarrow> int" where
  "top_k_rank a k = max (py_int ((1 - k) * real (length a))) 1"

definition filter_top_k :: "real list \<Rightarrow> real \<Rightarrow> error + real list" where
  "filter_top_k a k =
     (case kthvalue (map abs a) (top_k_rank a k) of
        Inl e \<Rightarrow> Inl e
      | Inr k_value \<Rightarrow> Inr (map (\<lambda>x. x * (if k_value \<le> \<bar>x\<bar> then 1 else 0)) a))"

text \<open>Step 1 of \<^verbatim>\<open>ties_sum_deltas\<close>: the list comprehension that trims every model.\<close>

fun trim_deltas :: "real list list \<Rightarrow> real \<Rightarrow> error + real list list" where
  "trim_deltas [] k = Inr []"
| "trim_deltas (m # ms) k =
     (case filter_top_k m k of
        Inl e \<Rightarrow> Inl e
      | Inr d \<Rightarrow> (case trim_deltas ms k of Inl e \<Rightarrow> Inl e | Inr ds \<Rightarrow> Inr (d # ds)))"

definition signs :: "real list list \<Rightarrow> real list list" where
  "signs deltas = map (map sgn) deltas"

definition final_sign :: "real list list \<Rightarrow> real \<Rightarrow> real list" where
  "final_sign deltas vote_sgn =
     map sgn (sum_dim0 (if vote_sgn \<le> 0 then deltas else signs deltas))"

definition delta_filters :: "real list list \<Rightarrow> real \<Rightarrow> real list list" where
  "delta_filters deltas vote_sgn =
     map (\<lambda>s. map2 (\<lambda>x f. if x = f then 1 else 0) s (final_sign deltas vote_sgn))
       (signs deltas)"

definition param_counts :: "real list list \<Rightarrow> real \<Rightarrow> real list" where
  "param_counts deltas vote_sgn = sum_dim0 (delta_filters deltas vote_sgn)"

definition filtered_delta :: "real list list \<Rightarrow> real \<Rightarrow> real list list" where
  "filtered_delta deltas vote_sgn = map2 (map2 (*)) deltas (delta_filters deltas vote_sgn)"

definition ties_sum_deltas ::
  "real list list \<Rightarrow> real \<Rightarrow> real \<Rightarrow> error + (real list list \<times> real list)" where
  "ties_sum_deltas models k vote_sgn =
     (case trim_deltas models k of
        Inl e \<Rightarrow> Inl e
      | Inr trimmed \<Rightarrow>
          (case stack trimmed of
             Inl e \<Rightarrow> Inl e
           | Inr deltas \<Rightarrow> Inr (filtered_delta deltas vote_sgn, param_counts deltas vote_sgn)))"

definition ties_sum :: "real list list \<Rightarrow> real \<Rightarrow> real \<Rightarrow> error + real list" where
  "ties_sum models k vote_sgn =
     (case ties_sum_deltas models k vote_sgn of
        Inl e \<Rightarrow> Inl e
      | Inr (fd, pc) \<Rightarrow> Inr (map nan_to_num (map2 fdiv (sum_dim0 fd) pc)))"

section \<open>Geometric median\<close>











section \<open>Spherical interpolation\<close>

text \<open>
  \<^verbatim>\<open>slerp\<close> is about the non-finite values of the format, so its model also keeps the
  overflow of the format: an exact result beyond the greatest finite value becomes an
  infinity (rounding inside the finite range is still not modelled). The tensors are
  single-precision; sums accumulate from left to right.
\<close>

fun overflow :: "fval \<Rightarrow> fval" where
  "overflow (Fin x) =
     (if float_max < x then PInf else if x < - float_max then NInf else Fin x)"
| "overflow v = v"

definition oadd :: "fval \<Rightarrow> fval \<Rightarrow> fval" where
  "oadd a b = overflow (fadd a b)"

definition omul :: "fval \<Rightarrow> fval \<Rightarrow> fval" where
  "omul a b = overflow (fmul a b)"

definition odivide :: "fval \<Rightarrow> fval \<Rightarrow> fval" where
  "odivide a b = overflow (fdivide a b)"

definition osum :: "fval list \<Rightarrow> fval" where
  "osum xs = foldl oadd (Fin 0) xs"

text \<open>\<^verbatim>\<open>a.norm()\<close>: the square root of the sum of the squares.\<close>

definition tensor_norm :: "fval list \<Rightarrow> fval" where
  "tensor_norm a = fsqrt (osum (map (\<lambda>x. omul x x) a))"

text \<open>\<^verbatim>\<open>x.clamp(lo, hi)\<close>: NaN stays NaN.\<close>

fun fclamp :: "real \<Rightarrow> real \<Rightarrow> fval \<Rightarrow> fval" where
  "fclamp lo hi (Fin x) = Fin (min (max x lo) hi)"
| "fclamp lo hi PInf = Fin hi"
| "fclamp lo hi NInf = Fin lo"
| "fclamp lo hi NaN = NaN"

text \<open>\<^verbatim>\<open>torch.arccos\<close>: NaN outside \<open>[-1, 1]\<close>.\<close>

fun farccos :: "fval \<Rightarrow> fval" where
  "farccos (Fin x) = (if - 1 \<le> x \<and> x \<le> 1 then Fin (arccos x) else NaN)"
| "farccos v = NaN"

fun fsin :: "fval \<Rightarrow> fval" where
  "fsin (Fin x) = Fin (sin x)"
| "fsin v = NaN"

text \<open>\<^verbatim>\<open>weighted_sum\<close> as the format computes it.\<close>

definition weighted_sum_fl :: "fval list \<Rightarrow> fval list \<Rightarrow> real \<Rightarrow> fval list" where
  "weighted_sum_fl a b alpha =
     map2 (\<lambda>x y. oadd (omul (Fin (1 - alpha)) x) (omul (Fin alpha) y)) a b"

text \<open>The clamped dot product \<^verbatim>\<open>ab_dot\<close> of the normalised inputs.\<close>

definition slerp_dot :: "fval list \<Rightarrow> fval list \<Rightarrow> fval" where
  "slerp_dot a b =
     (let a_normalized = map (\<lambda>x. odivide x (tensor_norm a)) a;
          b_normalized = map (\<lambda>x. odivide x (tensor_norm b)) b
      in fclamp (- 1) 1 (osum (map2 omul a_normalized b_normalized)))"

text \<open>The interpolation along the geodesic: \<^verbatim>\<open>res\<close> as it reaches the NaN test.\<close>

definition slerp_res :: "fval list \<Rightarrow> fval list \<Rightarrow> real \<Rightarrow> fval list" where
  "slerp_res a b alpha =
     (let a_normalized = map (\<lambda>x. odivide x (tensor_norm a)) a;
          b_normalized = map (\<lambda>x. odivide x (tensor_norm b)) b;
          ab_dot = slerp_dot a b;
          omega = farccos ab_dot;
          a_contrib = map (\<lambda>x. omul x (fsin (omul (Fin (1 - alpha)) omega))) a_normalized;
          b_contrib = map (\<lambda>x. omul x (fsin (omul (Fin alpha) omega))) b_normalized;
          res = map (\<lambda>x. odivide x (fsin omega)) (map2 oadd a_contrib b_contrib);
          scale = hd (weighted_sum_fl [tensor_norm a] [tensor_norm b] alpha)
      in map (\<lambda>x. omul x scale) res)"

definition slerp :: "fval list \<Rightarrow> fval list \<Rightarrow> real \<Rightarrow> fval list" where
  "slerp a b alpha =
     (let res = slerp_res a b alpha
      in if \<exists>x \<in> set res. is_nan x then weighted_sum_fl a b alpha else res)"

section \<open>Stochastic dropout\<close>



















section \<open>Spectral crossover\<close>

definition EPSILON :: real where
  "EPSILON = 1 / 10 ^ 10"

text \<open>\<^verbatim>\<open>torch.linspace(start, end, steps)\<close>: no point for 0 steps, the start alone for
  one step, evenly spaced points from start to end otherwise.\<close>

definition linspace :: "real \<Rightarrow> real \<Rightarrow> nat \<Rightarrow> real list" where
  "linspace start end steps =
     (if steps = 1 then [start]
      else map (\<lambda>i. start + real i * (end - start) / real (steps - 1)) [0..<steps])"

text \<open>One entry of the \<^verbatim>\<open>gradients\<close> comprehension: \<open>i\<close> is the position in the
  reversed shape (0 for the last axis), \<open>s\<close> the size of the axis.\<close>

definition gradient :: "nat \<Rightarrow> nat \<Rightarrow> real list" where
  "gradient i s =
     (if i = 0 \<or> s = 1 then linspace 0 1 s
      else map (\<lambda>x. x / real (s div 2))
             (linspace 0 (of_int ((int s - 1) div 2)) (s - s div 2)
              @ linspace (real (s div 2)) 1 (s div 2)))"

definition gradients :: "nat list \<Rightarrow> real list list" where
  "gradients shp = rev (map (\<lambda>(i, s). gradient i s) (enumerate 0 (rev shp)))"

text \<open>The multi-indices of a tensor of the given shape, in row-major order.\<close>

definition indices :: "nat list \<Rightarrow> nat list list" where
  "indices shp = List.product_lists (map (\<lambda>s. [0..<s]) shp)"

text \<open>
  The frequency mesh. For more than one axis: \<^verbatim>\<open>meshgrid\<close> of the squared gradients
  with \<^verbatim>\<open>indexing='ij'\<close>, stacked, summed, divided by the number of axes, square root.
  For one axis the gradient itself; \<^verbatim>\<open>gradients[0]\<close> raises for the empty shape.
\<close>

definition mesh_of :: "nat list \<Rightarrow> error + real list" where
  "mesh_of shp =
     (let gs = gradients shp
      in if 1 < length shp
         then Inr (map (\<lambda>idx. sqrt ((\<Sum>(g, j)\<leftarrow>zip gs idx. (g ! j)\<^sup>2) / real (length shp)))
                    (indices shp))
         else (case gs of [] \<Rightarrow> Inl IndexError | g # _ \<Rightarrow> Inr g))"

text \<open>
  \<^verbatim>\<open>1 / math.tan(x)\<close>: a \<^verbatim>\<open>ZeroDivisionError\<close> where the tangent is 0, the
  cotangent elsewhere (at the poles of the tangent the float tangent is huge and its
  reciprocal is the cotangent's 0, up to rounding).
\<close>

definition recip_tan :: "real \<Rightarrow> error + real" where
  "recip_tan x = (if sin x = 0 then Inl ZeroDivisionError else Inr (cos x / sin x))"

definition clip :: "real \<Rightarrow> real \<Rightarrow> real \<Rightarrow> real" where
  "clip lo hi x = min (max x lo) hi"

text \<open>The tilt after \<^verbatim>\<open>tilt -= math.floor(tilt // 4 * 4)\<close>.\<close>

definition normalize_tilt :: "real \<Rightarrow> real" where
  "normalize_tilt tilt = tilt - of_int \<lfloor>of_int \<lfloor>tilt / 4\<rfloor> * (4::real)\<rfloor>"

definition create_filter :: "nat list \<Rightarrow> real \<Rightarrow> real \<Rightarrow> error + tensor" where
  "create_filter shp alpha tilt =
     (if \<not> (0 \<le> alpha \<and> alpha \<le> 1) then Inl ValueError
      else
        let tilt1 = normalize_tilt tilt;
            alpha_inverted = (2 < tilt1);
            alpha1 = (if alpha_inverted then 1 - alpha else alpha)
        in case mesh_of shp of
             Inl e \<Rightarrow> Inl e
           | Inr mesh \<Rightarrow>
              (case (if tilt1 < EPSILON \<or> \<bar>tilt1 - 4\<bar> < EPSILON
                     then Inr (map (\<lambda>m. if 1 - alpha1 < m then 1 else 0) mesh)
                     else if \<bar>tilt1 - 2\<bar> < EPSILON
                     then Inr (map (\<lambda>m. if m < 1 - alpha1 then 1 else 0) mesh)
                     else (case recip_tan (pi * tilt1 / 2) of
                             Inl e \<Rightarrow> Inl e
                           | Inr tilt_cot \<Rightarrow>
                               Inr (map (clip 0 1)
                                 (if tilt1 \<le> 1 \<or> (2 < tilt1 \<and> tilt1 \<le> 3)
                                  then map (\<lambda>m. m * tilt_cot + alpha1 * tilt_cot + alpha1 - tilt_cot) mesh
                                  else map (\<lambda>m. m * tilt_cot - alpha1 * tilt_cot + alpha1) mesh))))
               of
                 Inl e \<Rightarrow> Inl e
               | Inr dft_filter \<Rightarrow>
                   Inr \<lparr>shape = shp,
                        data = (if alpha_inverted then map (\<lambda>x. 1 - x) dft_filter else dft_filter)\<rparr>))"

text \<open>The shape of \<^verbatim>\<open>torch.fft.rfftn(a, s=shape)\<close>: the last axis is halved.\<close>

definition rfftn_shape :: "nat list \<Rightarrow> nat list" where
  "rfftn_shape shp = (if shp = [] then [] else butlast shp @ [last shp div 2 + 1])"

text \<open>
  \<^verbatim>\<open>crossover\<close>. Two library computations are parameters: \<open>allclose_half\<close> is
  \<^verbatim>\<open>torch.allclose(a.half(), b.half())\<close>, and \<open>fft_blend f a b\<close> is the inverse real
  FFT of \<^verbatim>\<open>(1 - f) * rfftn(a) + f * rfftn(b)\<close>.
\<close>

definition crossover ::
  "(tensor \<Rightarrow> tensor \<Rightarrow> bool) \<Rightarrow> (tensor \<Rightarrow> tensor \<Rightarrow> tensor \<Rightarrow> tensor)
     \<Rightarrow> tensor \<Rightarrow> tensor \<Rightarrow> real \<Rightarrow> real \<Rightarrow> error + tensor" where
  "crossover allclose_half fft_blend a b alpha tilt =
     (if alpha = 0 then Inr a
      else if alpha = 1 then Inr b
      else if tilt = 1 then Inr (a\<lparr>data := weighted_sum (data a) (data b) alpha\<rparr>)
      else if length (shape a) = 0 \<or> allclose_half a b
      then Inr (a\<lparr>data := weighted_sum (data a) (data b) tilt\<rparr>)
      else (case create_filter (rfftn_shape (shape a)) alpha tilt of
              Inl e \<Rightarrow> Inl e
            | Inr dft_filter \<Rightarrow> Inr (fft_blend dft_filter a b)))"

section \<open>Properties of the conversions\<close>

lemma py_round_of_int: "py_round (of_int k) = k"
  by (simp add: py_round_def)

lemma py_round_mono:
  assumes "x \<le> y"
  shows "py_round x \<le> py_round y"
proof -
  have fl: "\<lfloor>x\<rfloor> \<le> \<lfloor>y\<rfloor>" using assms by (rule floor_mono)
  show ?thesis
  proof (cases "\<lfloor>x\<rfloor> = \<lfloor>y\<rfloor>")
    case True
    then show ?thesis using assms by (auto simp: py_round_def Let_def)
  next
    case False
    with fl have lt: "\<lfloor>x\<rfloor> + 1 \<le> \<lfloor>y\<rfloor>" by simp
    have "py_round x \<le> \<lfloor>x\<rfloor> + 1" by (auto simp: py_round_def Let_def)
    moreover have "\<lfloor>y\<rfloor> \<le> py_round y" by (auto simp: py_round_def Let_def)
    ultimately show ?thesis using lt by linarith
  qed
qed

section \<open>Properties of the rounding\<close>

lemma py_round_minus: "py_round (- x) = - py_round x"
proof (cases "x = of_int \<lfloor>x\<rfloor>")
  case True
  then obtain k :: int where k: "x = of_int k" by blast
  have "py_round (of_int (- k)) = - k" by (rule py_round_of_int)
  then show ?thesis using py_round_of_int [of k] k by simp
next
  case False
  have fl: "\<lfloor>- x\<rfloor> = - \<lfloor>x\<rfloor> - 1"
    using False by (simp add: floor_minus ceiling_altdef)
  define f where "f = \<lfloor>x\<rfloor>"
  define d where "d = x - of_int f"
  have d': "- x - of_int (- f - 1) = 1 - d" by (simp add: d_def)
  have ev: "even (- f - 1) = odd f" by simp
  have "py_round x = (if d < 1 / 2 then f else if 1 / 2 < d then f + 1
                      else if even f then f else f + 1)"
    by (simp add: py_round_def Let_def f_def d_def)
  moreover have "py_round (- x) = (if 1 - d < 1 / 2 then - f - 1 else if 1 / 2 < 1 - d then - f
                      else if odd f then - f - 1 else - f)"
    unfolding py_round_def Let_def fl f_def [symmetric] d' ev by simp
  ultimately show ?thesis by (cases "d < 1 / 2"; cases "1 / 2 < d") auto
qed

lemma powr_powi_2: "(2::real) powr real_of_int k = 2 powi k"
  by (simp add: powr_real_of_int')

lemma exponent_iff:
  assumes "x \<noteq> 0"
  shows "(exponent x = e) = (2 powi e \<le> \<bar>x\<bar> \<and> \<bar>x\<bar> < 2 powi (e + 1))"
proof -
  have pos: "0 < \<bar>x\<bar>" using assms by simp
  have "(\<lfloor>log 2 \<bar>x\<bar>\<rfloor> = e) =
        (2 powr real_of_int e \<le> \<bar>x\<bar> \<and> \<bar>x\<bar> < 2 powr real_of_int (e + 1))"
    using pos by (intro floor_log_eq_powr_iff) simp_all
  then show ?thesis unfolding powr_powi_2 exponent_def .
qed

lemma exponent_bounds:
  assumes "x \<noteq> 0"
  shows "2 powi exponent x \<le> \<bar>x\<bar>" "\<bar>x\<bar> < 2 powi (exponent x + 1)"
  using exponent_iff [OF assms, of "exponent x"] by simp_all

lemma exponent_eqI:
  assumes "2 powi e \<le> \<bar>x\<bar>" "\<bar>x\<bar> < 2 powi (e + 1)"
  shows "exponent x = e"
proof -
  have "0 < \<bar>x\<bar>" using assms(1) zero_less_power_int [of "2::real" e] by linarith
  then have "x \<noteq> 0" by simp
  then show ?thesis using exponent_iff [of x e] assms by simp
qed

lemma exponent_minus [simp]: "exponent (- x) = exponent x"
  by (simp add: exponent_def)

lemma exponent_mono:
  assumes "x \<noteq> 0" "\<bar>x\<bar> \<le> \<bar>y\<bar>"
  shows "exponent x \<le> exponent y"
proof (rule ccontr)
  assume "\<not> exponent x \<le> exponent y"
  then have lt: "exponent y + 1 \<le> exponent x" by simp
  have y0: "y \<noteq> 0" using assms by auto
  have "\<bar>y\<bar> < 2 powi (exponent y + 1)" using exponent_bounds(2) [OF y0] .
  also have "\<dots> \<le> 2 powi exponent x" using lt by (intro power_int_increasing) simp_all
  also have "\<dots> \<le> \<bar>x\<bar>" using exponent_bounds(1) [OF assms(1)] .
  finally show False using assms(2) by simp
qed

text \<open>Evaluation of the exponent by halving and doubling.\<close>

lemma exponent_unit: "1 \<le> \<bar>x\<bar> \<Longrightarrow> \<bar>x\<bar> < 2 \<Longrightarrow> exponent x = 0"
  by (rule exponent_eqI) simp_all

lemma exponent_halve: "2 \<le> \<bar>x\<bar> \<Longrightarrow> exponent x = exponent (x / 2) + 1"
proof -
  assume a: "2 \<le> \<bar>x\<bar>"
  then have h0: "x / 2 \<noteq> 0" by auto
  note b = exponent_bounds [OF h0]
  have s: "(2::real) powi (exponent (x / 2) + 1) = 2 powi exponent (x / 2) * 2"
    by (rule power_int_add_1) simp
  have s2: "(2::real) powi (exponent (x / 2) + 1 + 1) = 2 powi (exponent (x / 2) + 1) * 2"
    by (rule power_int_add_1) simp
  show ?thesis
    by (rule exponent_eqI) (use b s s2 in \<open>simp_all add: abs_divide\<close>)
qed

lemma exponent_double: "x \<noteq> 0 \<Longrightarrow> \<bar>x\<bar> < 1 \<Longrightarrow> exponent x = exponent (x * 2) - 1"
proof -
  assume a: "x \<noteq> 0" "\<bar>x\<bar> < 1"
  then have h0: "x * 2 \<noteq> 0" by auto
  note b = exponent_bounds [OF h0]
  have s: "(2::real) powi exponent (x * 2) = 2 powi (exponent (x * 2) - 1) * 2"
    using power_int_add_1 [of "2::real" "exponent (x * 2) - 1"] by simp
  have s2: "(2::real) powi (exponent (x * 2) + 1) = 2 powi exponent (x * 2) * 2"
    by (rule power_int_add_1) simp
  show ?thesis
    by (rule exponent_eqI) (use b s s2 in \<open>simp_all add: abs_mult\<close>)
qed

lemmas exponent_eval = exponent_unit exponent_halve exponent_double

lemma quantum_pos: "0 < quantum fmt x"
  by (simp add: quantum_def zero_less_power_int)

lemma quantum_minus [simp]: "quantum fmt (- x) = quantum fmt x"
  by (simp add: quantum_def)

lemma round_to_minus: "round_to fmt (- x) = - round_to fmt x"
  by (simp add: round_to_def py_round_minus)

lemma py_round_zero: "py_round 0 = 0"
  using py_round_of_int [of 0] by simp

lemma round_to_nonneg:
  assumes "0 \<le> x"
  shows "0 \<le> round_to fmt x"
proof -
  have "0 \<le> x / quantum fmt x" using assms quantum_pos [of fmt x] by simp
  then have "0 \<le> py_round (x / quantum fmt x)"
    using py_round_mono [of 0 "x / quantum fmt x"] py_round_zero by simp
  then show ?thesis using quantum_pos [of fmt x] by (simp add: round_to_def)
qed

lemma quantum_times:
  "quantum fmt x * 2 ^ precision fmt = 2 powi (max (exponent x) (1 - emax fmt) + 1)"
proof -
  have "(2::real) powi (max (exponent x) (1 - emax fmt) - int (precision fmt) + 1 + int (precision fmt))
        = 2 powi (max (exponent x) (1 - emax fmt) - int (precision fmt) + 1) * 2 powi int (precision fmt)"
    by (rule power_int_add) simp
  then show ?thesis by (simp add: quantum_def power_int_of_nat algebra_simps)
qed

lemma round_to_upper:
  assumes "0 < x"
  shows "round_to fmt x \<le> 2 powi (max (exponent x) (1 - emax fmt) + 1)"
proof -
  define q where "q = quantum fmt x"
  have q: "0 < q" by (simp add: q_def quantum_pos)
  have x0: "x \<noteq> 0" using assms by simp
  have "x < 2 powi (exponent x + 1)" using exponent_bounds(2) [OF x0] assms by simp
  also have "\<dots> \<le> 2 powi (max (exponent x) (1 - emax fmt) + 1)"
    by (intro power_int_increasing) simp_all
  also have "\<dots> = q * 2 ^ precision fmt" by (simp add: q_def quantum_times)
  finally have "x / q \<le> of_int (2 ^ precision fmt)"
    using q by (simp add: field_simps)
  then have "py_round (x / q) \<le> 2 ^ precision fmt"
    using py_round_mono [of "x / q" "of_int (2 ^ precision fmt)"] py_round_of_int by metis
  then have "real_of_int (py_round (x / q)) \<le> 2 ^ precision fmt"
    by (metis of_int_le_iff of_int_numeral of_int_power)
  then have "real_of_int (py_round (x / q)) * q \<le> 2 ^ precision fmt * q"
    using q by (simp add: mult_right_mono)
  then show ?thesis
    using x0 quantum_times [of fmt x] by (simp add: round_to_def q_def mult.commute)
qed

lemma round_to_lower:
  assumes "0 < x" "1 - emax fmt \<le> exponent x" "0 < precision fmt"
  shows "2 powi exponent x \<le> round_to fmt x"
proof -
  define q where "q = quantum fmt x"
  define p1 where "p1 = precision fmt - 1"
  have p: "precision fmt = Suc p1" using assms(3) by (simp add: p1_def)
  have q: "0 < q" by (simp add: q_def quantum_pos)
  have x0: "x \<noteq> 0" using assms by simp
  have m: "max (exponent x) (1 - emax fmt) = exponent x" using assms(2) by simp
  have "q * 2 ^ precision fmt = 2 powi (exponent x + 1)"
    using quantum_times [of fmt x] by (simp add: q_def m)
  also have "\<dots> = 2 powi exponent x * 2" by (rule power_int_add_1) simp
  finally have e: "2 powi exponent x = q * 2 ^ p1" by (simp add: p)
  have "q * 2 ^ p1 \<le> x" using exponent_bounds(1) [OF x0] assms(1) e by simp
  then have "of_int (2 ^ p1) \<le> x / q" using q by (simp add: field_simps)
  then have "2 ^ p1 \<le> py_round (x / q)"
    using py_round_mono [of "of_int (2 ^ p1)" "x / q"] py_round_of_int by metis
  then have "2 ^ p1 \<le> real_of_int (py_round (x / q))"
    by (metis of_int_le_iff of_int_numeral of_int_power)
  then have "2 ^ p1 * q \<le> real_of_int (py_round (x / q)) * q"
    using q by (simp add: mult_right_mono)
  then show ?thesis using x0 e by (simp add: round_to_def q_def mult.commute)
qed

lemma round_to_mono_pos:
  assumes "0 < x" "x \<le> y" "0 < precision fmt"
  shows "round_to fmt x \<le> round_to fmt y"
proof -
  define ex where "ex = max (exponent x) (1 - emax fmt)"
  define ey where "ey = max (exponent y) (1 - emax fmt)"
  have x0: "x \<noteq> 0" and y0: "y \<noteq> 0" and ypos: "0 < y" using assms by auto
  have "exponent x \<le> exponent y" using exponent_mono [OF x0, of y] assms by simp
  then have le: "ex \<le> ey" by (auto simp: ex_def ey_def)
  show ?thesis
  proof (cases "ex = ey")
    case True
    then have q: "quantum fmt x = quantum fmt y" by (simp add: quantum_def ex_def ey_def)
    have "x / quantum fmt y \<le> y / quantum fmt y"
      using assms(2) quantum_pos [of fmt y] by (simp add: divide_right_mono)
    then have "py_round (x / quantum fmt y) \<le> py_round (y / quantum fmt y)"
      by (rule py_round_mono)
    then have "real_of_int (py_round (x / quantum fmt y)) * quantum fmt y
               \<le> real_of_int (py_round (y / quantum fmt y)) * quantum fmt y"
      using quantum_pos [of fmt y] by (simp add: mult_right_mono)
    then show ?thesis using x0 y0 q by (simp add: round_to_def)
  next
    case False
    with le have lt: "ex + 1 \<le> ey" by simp
    then have ny: "1 - emax fmt \<le> exponent y" and eyy: "ey = exponent y"
      by (auto simp: ex_def ey_def)
    have "round_to fmt x \<le> 2 powi (ex + 1)"
      using round_to_upper [OF assms(1)] by (simp add: ex_def)
    also have "\<dots> \<le> 2 powi ey" using lt by (intro power_int_increasing) simp_all
    also have "\<dots> \<le> round_to fmt y"
      using round_to_lower [OF ypos ny assms(3)] by (simp add: eyy)
    finally show ?thesis .
  qed
qed

lemma round_to_zero [simp]: "round_to fmt 0 = 0"
  by (simp add: round_to_def)

lemma round_to_mono:
  assumes "x \<le> y" "0 < precision fmt"
  shows "round_to fmt x \<le> round_to fmt y"
proof -
  consider "0 < x" | "x \<le> 0" "0 \<le> y" | "y < 0" using assms(1) by linarith
  then show ?thesis
  proof cases
    case 1
    then show ?thesis using round_to_mono_pos assms by simp
  next
    case 2
    have "round_to fmt x \<le> 0"
      using round_to_nonneg [of "- x" fmt] 2(1) by (simp add: round_to_minus)
    moreover have "0 \<le> round_to fmt y" using round_to_nonneg 2(2) by simp
    ultimately show ?thesis by simp
  next
    case 3
    have "round_to fmt (- y) \<le> round_to fmt (- x)"
      using round_to_mono_pos [of "- y" "- x" fmt] 3 assms by simp
    then show ?thesis by (simp add: round_to_minus)
  qed
qed

lemma rnd_mono:
  assumes "x \<le> y" "0 < precision fmt"
  shows "fle (rnd fmt x) (rnd fmt y)"
proof -
  have r: "round_to fmt x \<le> round_to fmt y" using assms by (rule round_to_mono)
  have p: "(0::real) < 2 powi (emax fmt + 1)" by (simp add: zero_less_power_int)
  show ?thesis
    using r p by (auto simp: rnd_def Let_def)
qed

text \<open>Every \<open>k * 2\<^sup>j\<close> with \<open>k\<close> of at most \<open>precision\<close> bits and \<open>j\<close> not below the
  least quantum is a value of the format.\<close>

lemma round_to_scaled:
  assumes k: "\<bar>k\<bar> \<le> 2 ^ precision fmt" and j: "2 - emax fmt - int (precision fmt) \<le> j"
    and p: "0 < precision fmt"
  shows "round_to fmt (of_int k * 2 powi j) = of_int k * 2 powi j"
proof (cases "k = 0")
  case True
  then show ?thesis by simp
next
  case False
  define x :: real where "x = of_int k * 2 powi j"
  define q where "q = quantum fmt x"
  define e where "e = max (exponent x) (1 - emax fmt)"
  define P where "P = int (precision fmt)"
  have pj: "(0::real) < 2 powi j" by (simp add: zero_less_power_int)
  have x0: "x \<noteq> 0" using False pj by (simp add: x_def)
  have q: "0 < q" by (simp add: q_def quantum_pos)
  have qe: "q = 2 powi (e - P + 1)" by (simp add: q_def quantum_def e_def P_def)
  have ak: "\<bar>real_of_int k\<bar> \<le> 2 ^ precision fmt"
    using k by (metis of_int_abs of_int_le_iff of_int_numeral of_int_power)
  have ax: "\<bar>x\<bar> = \<bar>real_of_int k\<bar> * 2 powi j"
    using pj by (simp add: x_def abs_mult)
  have axu: "\<bar>x\<bar> \<le> 2 powi (P + j)"
  proof -
    have "\<bar>x\<bar> \<le> 2 ^ precision fmt * 2 powi j"
      unfolding ax using ak pj by (simp add: mult_right_mono)
    also have "\<dots> = 2 powi (P + j)"
      by (simp add: P_def power_int_add power_int_of_nat)
    finally show ?thesis .
  qed
  have Eu: "exponent x \<le> P + j"
  proof (rule ccontr)
    assume "\<not> exponent x \<le> P + j"
    then have "P + j + 1 \<le> exponent x" by simp
    then have "(2::real) powi (P + j + 1) \<le> 2 powi exponent x"
      by (intro power_int_increasing) simp_all
    moreover have "(2::real) powi (P + j) < 2 powi (P + j + 1)"
      by (intro power_int_strict_increasing) simp_all
    ultimately show False using exponent_bounds(1) [OF x0] axu by linarith
  qed
  have eu: "e \<le> P + j" using Eu j by (simp add: e_def P_def)
  have "\<exists>m::int. x / q = of_int m"
  proof (cases "e = P + j")
    case True
    then have E: "exponent x = P + j" using j by (auto simp: e_def P_def max_def split: if_splits)
    have "2 powi (P + j) \<le> \<bar>x\<bar>" using exponent_bounds(1) [OF x0] E by simp
    then have ax2: "\<bar>x\<bar> = 2 powi (P + j)" using axu by simp
    have q2: "q = 2 powi (j + 1)" by (simp add: qe True)
    obtain p1 where p1: "precision fmt = Suc p1"
      using p by (cases "precision fmt") auto
    have "(2::real) powi (P + j) = 2 powi (int p1 + (j + 1))"
      by (simp add: P_def p1 algebra_simps)
    also have "\<dots> = 2 powi int p1 * 2 powi (j + 1)" by (rule power_int_add) simp
    finally have "\<bar>x\<bar> / q = 2 ^ p1"
      using q by (simp add: ax2 q2 power_int_of_nat)
    then have a: "\<bar>x\<bar> / q = of_int (2 ^ p1)" by simp
    show ?thesis
    proof (cases "0 \<le> x")
      case True
      then have "x / q = of_int (2 ^ p1)" using a by simp
      then show ?thesis by blast
    next
      case False
      then have "x / q = - (\<bar>x\<bar> / q)" by simp
      also have "\<dots> = of_int (- (2 ^ p1))" unfolding a by simp
      finally show ?thesis by blast
    qed
  next
    case False
    with eu have "e - P + 1 \<le> j" by simp
    then obtain d where d: "j = e - P + 1 + int d" by (metis zle_iff_zadd)
    have "(2::real) powi j = 2 powi (e - P + 1) * 2 powi int d"
      unfolding d by (rule power_int_add) simp
    then have "x / q = of_int (k * 2 ^ d)"
      using q by (simp add: x_def qe power_int_of_nat)
    then show ?thesis by blast
  qed
  then obtain m :: int where m: "x / q = of_int m" by blast
  have "round_to fmt x = of_int (py_round (x / q)) * q"
    using x0 by (simp add: round_to_def q_def)
  also have "\<dots> = of_int m * q" by (simp add: m py_round_of_int)
  also have "\<dots> = x" using m q by (simp add: field_simps)
  finally show ?thesis by (simp add: x_def)
qed



lemma representable_iff:
  "representable fmt x \<longleftrightarrow> round_to fmt x = x \<and> \<bar>x\<bar> < 2 powi (emax fmt + 1)"
  by (auto simp: representable_def rnd_def Let_def)



lemma representable_of_int:
  assumes "\<bar>n\<bar> \<le> 2 ^ precision fmt" "valid_format fmt"
  shows "representable fmt (of_int n)"
proof -
  have p: "0 < precision fmt" and e: "int (precision fmt) \<le> emax fmt"
    using assms(2) by (simp_all add: valid_format_def)
  have "round_to fmt (of_int n * 2 powi 0) = of_int n * 2 powi 0"
    using assms(1) p e by (intro round_to_scaled) simp_all
  then have "round_to fmt (of_int n) = of_int n" by simp
  moreover have "\<bar>real_of_int n\<bar> \<le> 2 ^ precision fmt"
    using assms(1) by (metis of_int_abs of_int_le_iff of_int_numeral of_int_power)
  moreover have "(2::real) ^ precision fmt < 2 powi (emax fmt + 1)"
  proof -
    have "(2::real) powi int (precision fmt) < 2 powi (emax fmt + 1)"
      using e by (intro power_int_strict_increasing) simp_all
    then show ?thesis by (simp add: power_int_of_nat)
  qed
  ultimately show ?thesis unfolding representable_iff by linarith
qed

lemma valid_binary32 [simp]: "valid_format binary32"
  by (simp add: valid_format_def binary32_def)

lemma valid_binary64 [simp]: "valid_format binary64"
  by (simp add: valid_format_def binary64_def)






lemmas rnd_eval = rnd_def round_to_def quantum_def exponent_eval py_round_def Let_def

lemma rnd_not_NaN [simp]: "rnd fmt x \<noteq> NaN"
  by (simp add: rnd_def Let_def)

lemma representable_0 [simp]: "representable fmt 0"
  by (simp add: representable_iff zero_less_power_int)

lemma representable_int64:
  "\<bar>k\<bar> \<le> 2 ^ 53 \<Longrightarrow> representable binary64 (of_int k)"
  using representable_of_int [of k binary64] by (simp add: binary64_def valid_format_def)

lemma representable_1 [simp]: "representable binary64 1"
  using representable_int64 [of 1] by simp

lemma representable_2 [simp]: "representable binary64 2"
  using representable_int64 [of 2] by simp

lemma prec64 [simp]: "0 < precision binary64"
  by (simp add: binary64_def)









lemma representable_one:
  assumes "valid_format fmt"
  shows "representable fmt 1"
proof -
  have "\<bar>1::int\<bar> \<le> 2 ^ precision fmt" by simp
  from representable_of_int [OF this assms] show ?thesis by simp
qed

lemma rnd_zero [simp]: "rnd fmt 0 = Fin 0"
  using representable_0 [of fmt] by (simp add: representable_def)

lemma weighted_sum_rounded_endpoint_values:
  assumes "valid_format fmt" "finite_float fmt x" "finite_float fmt y"
  shows "radd fmt (rmul fmt (round_fval fmt (rnd binary64 (1 - 0))) x) (rmul fmt (rnd fmt 0) y) = x"
    and "radd fmt (rmul fmt (round_fval fmt (rnd binary64 (1 - 1))) x) (rmul fmt (rnd fmt 1) y) = y"
proof -
  obtain u v where x: "x = Fin u" "representable fmt u" and y: "y = Fin v" "representable fmt v"
    using assms(2,3) by (cases x; cases y) auto
  have one: "rnd fmt 1 = Fin 1" "rnd binary64 1 = Fin 1"
    using representable_one [OF assms(1)] representable_one [of binary64]
    by (simp_all add: representable_def)
  have u: "rnd fmt u = Fin u" and v: "rnd fmt v = Fin v"
    using x(2) y(2) by (simp_all add: representable_def)
  show "radd fmt (rmul fmt (round_fval fmt (rnd binary64 (1 - 0))) x) (rmul fmt (rnd fmt 0) y) = x"
    by (simp add: x(1) y(1) one radd_def rmul_def u)
  show "radd fmt (rmul fmt (round_fval fmt (rnd binary64 (1 - 1))) x) (rmul fmt (rnd fmt 1) y) = y"
    by (simp add: x(1) y(1) one radd_def rmul_def v)
qed

section \<open>Properties of the TIES trim step\<close>

lemma top_k_rank_range:
  assumes "a \<noteq> []" "0 \<le> k"
  shows "1 \<le> top_k_rank a k" "top_k_rank a k \<le> int (length a)"
proof -
  show "1 \<le> top_k_rank a k" by (simp add: top_k_rank_def)
  have n: "1 \<le> int (length a)" using assms(1) by (cases a) simp_all
  have le: "(1 - k) * real (length a) \<le> real (length a)"
    using assms(2) mult_right_mono [of "1 - k" 1 "real (length a)"] by simp
  have "py_int ((1 - k) * real (length a)) \<le> int (length a)"
  proof (cases "0 \<le> (1 - k) * real (length a)")
    case True
    then have "py_int ((1 - k) * real (length a)) = \<lfloor>(1 - k) * real (length a)\<rfloor>"
      by (simp add: py_int_def)
    also have "\<dots> \<le> \<lfloor>real (length a)\<rfloor>" using le by (rule floor_mono)
    finally show ?thesis by simp
  next
    case False
    then have "py_int ((1 - k) * real (length a)) = \<lceil>(1 - k) * real (length a)\<rceil>"
      by (simp add: py_int_def)
    also have "\<dots> \<le> 0" using False by (simp add: ceiling_le_iff)
    finally show ?thesis by simp
  qed
  then show "top_k_rank a k \<le> int (length a)" using n by (simp add: top_k_rank_def)
qed






lemma filter_top_k_succeeds:
  assumes "a \<noteq> []" "0 \<le> k"
  shows "\<exists>d. filter_top_k a k = Inr d \<and> length d = length a"
proof -
  have "1 \<le> top_k_rank a k" "top_k_rank a k \<le> int (length a)"
    using top_k_rank_range [OF assms] .
  then show ?thesis by (simp add: filter_top_k_def kthvalue_def)
qed

lemma trim_deltas_succeeds:
  assumes "\<forall>m \<in> set models. length m = d" "0 < d" "0 \<le> k"
  shows "\<exists>deltas. trim_deltas models k = Inr deltas
           \<and> length deltas = length models \<and> (\<forall>r \<in> set deltas. length r = d)"
  using assms(1)
proof (induction models)
  case Nil
  then show ?case by simp
next
  case (Cons m ms)
  then have "m \<noteq> []" using assms(2) by auto
  then obtain r where r: "filter_top_k m k = Inr r" "length r = length m"
    using filter_top_k_succeeds assms(3) by blast
  from Cons obtain rs where rs: "trim_deltas ms k = Inr rs" "length rs = length ms"
      "\<forall>r \<in> set rs. length r = d"
    by auto
  show ?case using r rs Cons.prems by simp
qed

lemma sum_dim0_nth:
  assumes "i < length (hd rows)"
  shows "sum_dim0 rows ! i = (\<Sum>r\<leftarrow>rows. r ! i)"
  using assms by (simp add: sum_dim0_def)

lemma sum_list_all_zero:
  assumes "\<forall>x \<in> set xs. f x = (0::real)"
  shows "(\<Sum>x\<leftarrow>xs. f x) = 0"
  using assms by (induction xs) simp_all

lemma stack_InrD:
  assumes "stack rows = Inr r"
  shows "rows \<noteq> []" "r = rows" "\<And>x. x \<in> set rows \<Longrightarrow> length x = length (hd rows)"
proof -
  show "rows \<noteq> []" using assms unfolding stack_def by (metis sum.distinct(1))
  show "r = rows" using assms unfolding stack_def by (metis sum.distinct(1) sum.inject(2))
  show "length x = length (hd rows)" if "x \<in> set rows" for x
    using assms that unfolding stack_def by (metis sum.distinct(1))
qed

lemma zero_agreement_elements:
  assumes tr: "trim_deltas models k = Inr deltas" and st: "stack deltas = Inr deltas"
  shows "\<exists>out. ties_sum models k vote_sgn = Inr out
           \<and> length out = length (hd deltas)
           \<and> (\<forall>i < length (hd deltas).
                 final_sign deltas vote_sgn ! i = 0
                 \<and> (\<forall>t < length deltas. sgn (deltas ! t ! i) = 1 \<or> sgn (deltas ! t ! i) = - 1)
                 \<longrightarrow> (\<forall>t < length deltas. delta_filters deltas vote_sgn ! t ! i = 0)
                     \<and> param_counts deltas vote_sgn ! i = 0
                     \<and> out ! i = 0)"
proof -
  define d where "d = length (hd deltas)"
  have ne: "deltas \<noteq> []" using stack_InrD(1) [OF st] .
  have rows: "\<forall>r \<in> set deltas. length r = d"
    unfolding d_def using stack_InrD(3) [OF st] by blast
  have hd: "length (hd deltas) = d" by (simp only: d_def)
  let ?fs = "final_sign deltas vote_sgn"
  let ?df = "delta_filters deltas vote_sgn"
  let ?pc = "param_counts deltas vote_sgn"
  let ?fd = "filtered_delta deltas vote_sgn"
  let ?out = "map nan_to_num (map2 fdiv (sum_dim0 ?fd) ?pc)"
  have hd_sg: "length (hd (signs deltas)) = d"
    using ne hd by (cases deltas) (simp_all add: signs_def)
  have fs_len: "length ?fs = d"
    using hd hd_sg by (simp add: final_sign_def sum_dim0_def)
  have df_len: "length ?df = length deltas" by (simp add: delta_filters_def signs_def)
  have df_row: "length (?df ! t) = d" if "t < length deltas" for t
    using that rows fs_len by (simp add: delta_filters_def signs_def)
  have df_nth: "?df ! t ! i = (if sgn (deltas ! t ! i) = ?fs ! i then 1 else 0)"
    if "t < length deltas" "i < d" for t i
    using that rows fs_len by (simp add: delta_filters_def signs_def)
  have df_ne: "?df \<noteq> []" using ne df_len by auto
  have hd_df: "length (hd ?df) = d"
    using ne df_row [of 0] by (simp add: hd_conv_nth [OF df_ne])
  have pc_len: "length ?pc = d" using hd_df by (simp add: param_counts_def sum_dim0_def)
  have fd_len: "length ?fd = length deltas" by (simp add: filtered_delta_def df_len)
  have fd_row: "length (?fd ! t) = d" if "t < length deltas" for t
    using that rows df_row [OF that] df_len by (simp add: filtered_delta_def)
  have fd_nth: "?fd ! t ! i = deltas ! t ! i * ?df ! t ! i"
    if "t < length deltas" "i < d" for t i
    using that rows df_row [OF that(1)] df_len by (simp add: filtered_delta_def)
  have fd_ne: "?fd \<noteq> []" using ne fd_len by auto
  have hd_fd: "length (hd ?fd) = d"
    using ne fd_row [of 0] by (simp add: hd_conv_nth [OF fd_ne])
  have sfd_len: "length (sum_dim0 ?fd) = d" using hd_fd by (simp add: sum_dim0_def)
  have res: "ties_sum models k vote_sgn = Inr ?out"
    by (simp add: ties_sum_def ties_sum_deltas_def tr st)
  have out_len: "length ?out = d" using sfd_len pc_len by simp
  have main: "(\<forall>t < length deltas. ?df ! t ! i = 0) \<and> ?pc ! i = 0 \<and> ?out ! i = 0"
    if i: "i < d" and z: "?fs ! i = 0"
      and pm: "\<forall>t < length deltas. sgn (deltas ! t ! i) = 1 \<or> sgn (deltas ! t ! i) = - 1"
    for i
  proof -
    have dz: "?df ! t ! i = 0" if "t < length deltas" for t
      using df_nth [OF that i] pm that z by auto
    have "\<forall>r \<in> set ?df. r ! i = 0"
      using dz df_len by (auto simp: in_set_conv_nth)
    then have pc0: "?pc ! i = 0"
      using i hd_df by (simp add: param_counts_def sum_dim0_nth sum_list_all_zero)
    have "\<forall>r \<in> set ?fd. r ! i = 0"
      using fd_nth dz i fd_len by (auto simp: in_set_conv_nth)
    then have s0: "sum_dim0 ?fd ! i = 0"
      using i hd_fd by (simp add: sum_dim0_nth sum_list_all_zero)
    have "?out ! i = nan_to_num (fdiv (sum_dim0 ?fd ! i) (?pc ! i))"
      using i sfd_len pc_len by simp
    then have "?out ! i = 0" by (simp add: s0 pc0 fdiv_def)
    then show ?thesis using dz pc0 by blast
  qed
  show ?thesis
    unfolding d_def [symmetric] using res out_len main by blast
qed

section \<open>Properties of the filter construction\<close>

lemma normalize_tilt_eq: "normalize_tilt t = t - 4 * of_int \<lfloor>t / 4\<rfloor>"
proof -
  have "of_int \<lfloor>t / 4\<rfloor> * (4::real) = of_int (\<lfloor>t / 4\<rfloor> * 4)" by simp
  then have "\<lfloor>of_int \<lfloor>t / 4\<rfloor> * (4::real)\<rfloor> = \<lfloor>t / 4\<rfloor> * 4"
    by (simp only: floor_of_int)
  then show ?thesis by (simp add: normalize_tilt_def)
qed

lemma normalize_tilt_range: "0 \<le> normalize_tilt t" "normalize_tilt t < 4"
proof -
  have "of_int \<lfloor>t / 4\<rfloor> \<le> t / 4" "t / 4 < of_int \<lfloor>t / 4\<rfloor> + 1" by linarith+
  then show "0 \<le> normalize_tilt t" "normalize_tilt t < 4"
    unfolding normalize_tilt_eq by linarith+
qed

lemma sin_half_pi_nonzero:
  assumes "0 < x" "x < 4" "x \<noteq> 2"
  shows "sin (pi * x / 2) \<noteq> 0"
proof
  assume "sin (pi * x / 2) = 0"
  then obtain i :: int where i: "pi * x / 2 = of_int i * pi"
    using sin_zero_iff_int2 by blast
  then have "pi * (x / 2) = pi * of_int i" by (simp add: mult.commute)
  then have x: "x = 2 * of_int i" by simp
  then have "0 < i" "i < 2" using assms(1,2) by simp_all
  then have "i = 1" by simp
  then show False using x assms(3) by simp
qed

lemma recip_tan_defined:
  assumes "\<not> (t < EPSILON \<or> \<bar>t - 4\<bar> < EPSILON)" "\<not> \<bar>t - 2\<bar> < EPSILON" "t < 4"
  shows "\<exists>c. recip_tan (pi * t / 2) = Inr c"
proof -
  have e: "0 < EPSILON" by (simp add: EPSILON_def)
  have "0 < t" "t \<noteq> 2" using assms(1,2) e by auto
  then have "sin (pi * t / 2) \<noteq> 0" using sin_half_pi_nonzero assms(3) by blast
  then show ?thesis by (simp add: recip_tan_def)
qed

lemma mesh_of_defined:
  assumes "shp \<noteq> []"
  shows "\<exists>m. mesh_of shp = Inr m"
proof (cases "1 < length shp")
  case True
  then show ?thesis by (simp add: mesh_of_def Let_def)
next
  case False
  have "length (gradients shp) = length shp" by (simp add: gradients_def)
  then have "gradients shp \<noteq> []" using assms by auto
  then obtain g gs where "gradients shp = g # gs" by (cases "gradients shp") auto
  then show ?thesis using False by (simp add: mesh_of_def Let_def)
qed

lemma mesh_of_not_ValueError: "mesh_of shp \<noteq> Inl ValueError"
  by (simp add: mesh_of_def Let_def split: list.splits)

lemma linspace_bounds:
  assumes "x \<in> set (linspace a b n)"
  shows "min a b \<le> x \<and> x \<le> max a b"
proof (cases "n = 1")
  case True
  then show ?thesis using assms by (simp add: linspace_def)
next
  case False
  then obtain i where i: "i < n" "x = a + real i * (b - a) / real (n - 1)"
    using assms by (auto simp: linspace_def)
  define t where "t = real i / real (n - 1)"
  have n: "2 \<le> n" using False i(1) by simp
  then have "real i \<le> real (n - 1)" using i(1) by simp
  then have t: "0 \<le> t" "t \<le> 1" using n by (simp_all add: t_def divide_le_eq)
  have x: "x = a + t * (b - a)" by (simp add: i(2) t_def)
  show ?thesis
  proof (cases "a \<le> b")
    case True
    have "0 \<le> t * (b - a)" using t(1) True by simp
    moreover have "t * (b - a) \<le> b - a"
      using mult_right_mono [of t 1 "b - a"] t(2) True by simp
    ultimately show ?thesis using True x by (simp add: min_def max_def)
  next
    case False
    then have ba: "b - a \<le> 0" by simp
    have "t * (b - a) \<le> 0" using t(1) ba by (simp add: mult_nonneg_nonpos)
    moreover have "b - a \<le> t * (b - a)"
      using mult_right_mono_neg [of t 1 "b - a"] t(2) ba by simp
    ultimately have "b \<le> x" "x \<le> a" using x by linarith+
    then show ?thesis using False by (simp add: min_def max_def)
  qed
qed

lemma length_linspace: "length (linspace a b n) = n"
  by (simp add: linspace_def)

lemma length_gradient: "length (gradient i s) = s"
  by (simp add: gradient_def length_linspace)

lemma gradient_bounds:
  assumes "x \<in> set (gradient i s)"
  shows "0 \<le> x \<and> x \<le> 1"
proof (cases "i = 0 \<or> s = 1")
  case True
  then show ?thesis using assms linspace_bounds [of x 0 1 s] by (simp add: gradient_def)
next
  case False
  let ?h = "s div 2"
  from False assms obtain y where y: "x = y / real ?h"
      "y \<in> set (linspace 0 (of_int ((int s - 1) div 2)) (s - ?h)) \<or> y \<in> set (linspace (real ?h) 1 ?h)"
    by (auto simp: gradient_def)
  have s: "2 \<le> s"
  proof (rule ccontr)
    assume "\<not> 2 \<le> s"
    then have "s = 0" using False by simp
    then show False using y(2) by (simp add: linspace_def)
  qed
  then have h: "1 \<le> ?h" by simp
  have up: "real_of_int ((int s - 1) div 2) \<le> real ?h" 
  proof -
    have "(int s - 1) div 2 \<le> int s div 2" by (intro zdiv_mono1) simp_all
    also have "\<dots> = int (s div 2)" by (simp add: zdiv_int)
    finally show ?thesis by (metis of_int_le_iff of_int_of_nat_eq)
  qed
  have lo: "0 \<le> real_of_int ((int s - 1) div 2)" using s by simp
  have "0 \<le> y \<and> y \<le> real ?h"
  proof (cases "y \<in> set (linspace 0 (of_int ((int s - 1) div 2)) (s - ?h))")
    case True
    then show ?thesis using linspace_bounds [OF True] up lo by simp
  next
    case False
    then have "y \<in> set (linspace (real ?h) 1 ?h)" using y(2) by simp
    then show ?thesis using linspace_bounds [of y "real ?h" 1 ?h] h by simp
  qed
  then show ?thesis using h by (simp add: y(1) divide_le_eq)
qed


lemma length_gradients: "length (gradients shp) = length shp"
  by (simp add: gradients_def)

lemma gradients_nth:
  assumes "k < length shp"
  shows "\<exists>i. gradients shp ! k = gradient i (shp ! k)"
proof -
  let ?d = "length shp"
  let ?xs = "map (\<lambda>(i, s). gradient i s) (enumerate 0 (rev shp))"
  have k': "?d - Suc k < ?d" using assms by simp
  have "gradients shp ! k = ?xs ! (?d - Suc k)"
    using assms by (simp add: gradients_def rev_nth)
  also have "\<dots> = gradient (?d - Suc k) (rev shp ! (?d - Suc k))"
    using k' by (simp add: nth_enumerate_eq)
  also have "rev shp ! (?d - Suc k) = shp ! k"
    using assms k' by (simp add: rev_nth)
  finally show ?thesis by blast
qed

lemma sum_list_le_length:
  assumes "\<forall>x \<in> set xs. x \<le> (1::real)"
  shows "sum_list xs \<le> real (length xs)"
  using assms by (induction xs) auto

lemma mesh_entry_le_one:
  assumes "idx \<in> set (indices shp)" "shp \<noteq> []"
  shows "sqrt ((\<Sum>(g, j)\<leftarrow>zip (gradients shp) idx. (g ! j)\<^sup>2) / real (length shp)) \<le> 1"
proof -
  let ?d = "length shp"
  let ?sq = "map (\<lambda>(g, j). (g ! j)\<^sup>2) (zip (gradients shp) idx)"
  have all2: "list_all2 (\<lambda>x ys. x \<in> set ys) idx (map (\<lambda>s. [0..<s]) shp)"
    using assms(1) by (simp add: indices_def product_lists_set)
  then have len: "length idx = ?d" by (auto dest: list_all2_lengthD)
  have inr: "idx ! k < shp ! k" if "k < ?d" for k
    using list_all2_nthD2 [OF all2, of k] that by simp
  have "\<forall>x \<in> set ?sq. x \<le> 1"
  proof
    fix x assume "x \<in> set ?sq"
    then obtain k where k: "k < ?d" "x = (gradients shp ! k ! (idx ! k))\<^sup>2"
      using len by (auto simp: in_set_conv_nth length_gradients)
    obtain i where i: "gradients shp ! k = gradient i (shp ! k)"
      using gradients_nth [OF k(1)] by blast
    have "gradient i (shp ! k) ! (idx ! k) \<in> set (gradient i (shp ! k))"
      using inr [OF k(1)] by (simp add: length_gradient)
    then have "0 \<le> gradient i (shp ! k) ! (idx ! k) \<and> gradient i (shp ! k) ! (idx ! k) \<le> 1"
      by (rule gradient_bounds)
    then show "x \<le> 1" by (simp add: k(2) i power_le_one)
  qed
  then have "sum_list ?sq \<le> real (length ?sq)" by (rule sum_list_le_length)
  also have "length ?sq = ?d" using len by (simp add: length_gradients)
  finally have "sum_list ?sq / real ?d \<le> 1" using assms(2) by (simp add: divide_le_eq)
  then show ?thesis by simp
qed

lemma mesh_of_le_one:
  assumes "mesh_of shp = Inr m" "x \<in> set m"
  shows "x \<le> 1"
proof (cases "1 < length shp")
  case True
  then have ne: "shp \<noteq> []" by auto
  from True assms obtain idx where "idx \<in> set (indices shp)"
      "x = sqrt ((\<Sum>(g, j)\<leftarrow>zip (gradients shp) idx. (g ! j)\<^sup>2) / real (length shp))"
    by (auto simp: mesh_of_def Let_def)
  then show ?thesis using mesh_entry_le_one [OF _ ne] by blast
next
  case False
  then obtain g gs where g: "gradients shp = g # gs" "m = g"
    using assms(1) by (auto simp: mesh_of_def Let_def split: list.splits)
  then have "shp \<noteq> []" using length_gradients [of shp] by auto
  then obtain i where "gradients shp ! 0 = gradient i (shp ! 0)"
    using gradients_nth [of 0 shp] by auto
  then have "m = gradient i (shp ! 0)" using g by simp
  then show ?thesis using assms(2) gradient_bounds by blast
qed

lemma create_filter_alpha_zero:
  assumes "shp \<noteq> []"
  shows "\<exists>f. create_filter shp 0 0 = Inr f \<and> shape f = shp \<and> (\<forall>x \<in> set (data f). x = 0)"
proof -
  obtain m where m: "mesh_of shp = Inr m" using mesh_of_defined [OF assms] by blast
  have "\<not> 1 < x" if "x \<in> set m" for x using mesh_of_le_one [OF m that] by simp
  then have "map (\<lambda>m. if 1 - (0::real) < m then 1 else (0::real)) m = map (\<lambda>_. 0) m"
    by (intro map_cong) simp_all
  then show ?thesis
    by (simp add: create_filter_def normalize_tilt_def EPSILON_def m)
qed


lemma linspace_first:
  assumes "0 < n"
  shows "linspace a b n ! 0 = a"
  using assms by (simp add: linspace_def)

lemma gradient_first:
  assumes "0 < s"
  shows "gradient i s ! 0 = 0"
proof (cases "i = 0 \<or> s = 1")
  case True
  then show ?thesis using assms by (simp add: gradient_def linspace_first)
next
  case False
  then have s: "2 \<le> s" using assms by simp
  let ?l1 = "linspace 0 (of_int ((int s - 1) div 2)) (s - s div 2)"
  let ?l2 = "linspace (real (s div 2)) 1 (s div 2)"
  have n1: "0 < s - s div 2" using s by simp
  then have "0 < length (?l1 @ ?l2)" by (simp add: length_linspace)
  then have "map (\<lambda>x. x / real (s div 2)) (?l1 @ ?l2) ! 0 = (?l1 @ ?l2) ! 0 / real (s div 2)"
    by (rule nth_map)
  also have "(?l1 @ ?l2) ! 0 = ?l1 ! 0" using n1 by (simp add: nth_append length_linspace)
  also have "\<dots> = 0" using n1 by (rule linspace_first)
  finally show ?thesis using False by (simp add: gradient_def)
qed

lemma indices_first:
  assumes "\<forall>s \<in> set shp. 0 < s"
  shows "indices shp \<noteq> [] \<and> hd (indices shp) = replicate (length shp) 0"
  using assms
proof (induction shp)
  case Nil
  then show ?case by (simp add: indices_def)
next
  case (Cons s shp)
  let ?P = "List.product_lists (map (\<lambda>s. [0..<s]) shp)"
  have P: "?P \<noteq> []" "hd ?P = replicate (length shp) 0"
    using Cons by (simp_all add: indices_def)
  have "0 < s" using Cons.prems by simp
  then have "[0..<s] = 0 # [1..<s]" by (simp add: upt_rec)
  then have "indices (s # shp) = map (Cons 0) ?P @ concat (map (\<lambda>x. map (Cons x) ?P) [1..<s])"
    by (simp add: indices_def)
  then show ?case using P by (simp add: hd_map)
qed

lemma create_filter_alpha_one_dc:
  assumes "shp \<noteq> []" "\<forall>s \<in> set shp. 0 < s"
  shows "\<exists>f. create_filter shp 1 0 = Inr f \<and> data f \<noteq> [] \<and> data f ! 0 = 0"
proof -
  let ?d = "length shp"
  have mesh: "\<exists>m. mesh_of shp = Inr m \<and> m \<noteq> [] \<and> m ! 0 = 0"
  proof (cases "1 < ?d")
    case True
    let ?f = "\<lambda>idx. sqrt ((\<Sum>(g, j)\<leftarrow>zip (gradients shp) idx. (g ! j)\<^sup>2) / real ?d)"
    have ix: "indices shp \<noteq> []" "hd (indices shp) = replicate ?d 0"
      using indices_first [OF assms(2)] by simp_all
    have "\<forall>x \<in> set (zip (gradients shp) (replicate ?d 0)).
            (case x of (g, j) \<Rightarrow> (g ! j)\<^sup>2) = (0::real)"
    proof
      fix x :: "real list \<times> nat"
      assume "x \<in> set (zip (gradients shp) (replicate ?d 0))"
      then obtain k where k: "k < ?d" "x = (gradients shp ! k, 0)"
        by (auto simp: in_set_conv_nth length_gradients)
      obtain i where "gradients shp ! k = gradient i (shp ! k)"
        using gradients_nth [OF k(1)] by blast
      moreover have "0 < shp ! k" using assms(2) k(1) by simp
      ultimately show "(case x of (g, j) \<Rightarrow> (g ! j)\<^sup>2) = (0::real)"
        by (simp add: k(2) gradient_first)
    qed
    then have "(\<Sum>(g, j)\<leftarrow>zip (gradients shp) (replicate ?d 0). (g ! j)\<^sup>2) = (0::real)"
      by (rule sum_list_all_zero)
    then have f0: "?f (replicate ?d 0) = 0" by simp
    have "indices shp ! 0 = replicate ?d 0"
      using hd_conv_nth [OF ix(1)] ix(2) by simp
    moreover have "map ?f (indices shp) ! 0 = ?f (indices shp ! 0)"
      using ix(1) by (intro nth_map) simp
    ultimately have "map ?f (indices shp) ! 0 = 0" using f0 by (simp only:)
    moreover have "mesh_of shp = Inr (map ?f (indices shp))"
      using True by (simp add: mesh_of_def Let_def)
    moreover have "map ?f (indices shp) \<noteq> []" using ix(1) by simp
    ultimately show ?thesis by blast
  next
    case False
    then obtain s where s: "shp = [s]" using assms(1) by (cases shp) auto
    then have "0 < s" using assms(2) by simp
    then have "gradient 0 s \<noteq> []" "gradient 0 s ! 0 = 0"
      using length_gradient [of 0 s] gradient_first [of s 0] by auto
    then show ?thesis using s by (simp add: mesh_of_def gradients_def)
  qed
  then obtain m where m: "mesh_of shp = Inr m" "m \<noteq> []" "m ! 0 = 0" by blast
  have "create_filter shp 1 0
        = Inr \<lparr>shape = shp, data = map (\<lambda>m. if 0 < m then 1 else 0) m\<rparr>"
    by (simp add: create_filter_def normalize_tilt_def EPSILON_def m(1))
  moreover have "map (\<lambda>m. if 0 < m then 1 else (0::real)) m ! 0 = 0"
    using m(2,3) by simp
  ultimately show ?thesis using m(2) by simp
qed

lemma crossover_short_circuits:
  "crossover allclose_half fft_blend a b 0 tilt = Inr a"
  "crossover allclose_half fft_blend a b 1 tilt = Inr b"
  "alpha \<noteq> 0 \<Longrightarrow> alpha \<noteq> 1 \<Longrightarrow>
     crossover allclose_half fft_blend a b alpha 1
       = Inr (a\<lparr>data := weighted_sum (data a) (data b) alpha\<rparr>)"
  "alpha \<noteq> 0 \<Longrightarrow> alpha \<noteq> 1 \<Longrightarrow> tilt \<noteq> 1 \<Longrightarrow>
     length (shape a) = 0 \<or> allclose_half a b \<Longrightarrow>
     crossover allclose_half fft_blend a b alpha tilt
       = Inr (a\<lparr>data := weighted_sum (data a) (data b) tilt\<rparr>)"
  by (simp_all add: crossover_def)

section \<open>Properties of the geometric-median solver\<close>




















section \<open>Properties of the dropout masks\<close>









section \<open>Properties of the spherical interpolation\<close>

lemma float_max_large: "1000 < float_max"
  by (simp add: float_max_def)

lemma fclamp_unit_range:
  "fclamp (- 1) 1 v = NaN \<or> (\<exists>c. fclamp (- 1) 1 v = Fin c \<and> - 1 \<le> c \<and> c \<le> 1)"
  by (cases v) auto

lemma sqrt_25: "sqrt 25 = 5"
  by (rule real_sqrt_unique) simp_all

lemma overflow_in_range:
  assumes "- float_max \<le> x" "x \<le> float_max"
  shows "overflow (Fin x) = Fin x"
  using assms by simp

lemma pi_in_range:
  "\<not> pi < - (float_max * 2)" "\<not> float_max * 2 < pi"
  "\<not> pi < - (float_max * 3)" "\<not> float_max * 3 < pi"
  "\<not> pi < - (float_max * 6)" "\<not> float_max * 6 < pi"
  using float_max_large pi_gt_zero pi_less_4 by linarith+

lemma tensor_norm_overflows: "tensor_norm [Fin float_max, Fin float_max] = PInf"
  using float_max_large by (simp add: tensor_norm_def osum_def omul_def oadd_def)

lemma tensor_norm_3_4: "tensor_norm [Fin 3, Fin 4] = Fin 5"
  using float_max_large by (simp add: tensor_norm_def osum_def omul_def oadd_def sqrt_25)

lemma slerp_dot_overflowed:
  "slerp_dot [Fin float_max, Fin float_max] [Fin 3, Fin 4] = Fin 0"
  using float_max_large
  by (simp add: slerp_dot_def tensor_norm_overflows tensor_norm_3_4 osum_def omul_def oadd_def
      odivide_def fdiv_def Let_def)

section \<open>Claims\<close>

text \<open>
  C9, as the spec states it, fails on floating-point tensors: blending the single-precision
  tensor \<open>[3]\<close> with itself at \<open>alpha = 0.1\<close> (the double nearest to it) gives
  \<open>[12582911 / 4194304]\<close>, one unit in the last place below 3, and at \<open>alpha = 0\<close> an
  infinite element of \<open>b\<close> turns the result into NaN where \<open>a\<close> is finite.
\<close>

theorem weighted_sum_rounded_counterexample:
  "representable binary64 (3602879701896397 / 2 ^ 55)
   \<and> weighted_sum_rounded binary32 [Fin 3] [Fin 3] (3602879701896397 / 2 ^ 55)
       = [Fin (12582911 / 4194304)]
   \<and> [Fin (12582911 / 4194304)] \<noteq> [Fin 3]
   \<and> weighted_sum_rounded binary32 [Fin 1, Fin 2] [PInf, Fin 5] 0 = [NaN, Fin 2]
   \<and> [NaN, Fin 2] \<noteq> [Fin 1, Fin 2]"
  by (simp add: weighted_sum_rounded_def radd_def rmul_def representable_def inf_of_sign_def
        rnd_eval binary32_def binary64_def)

text \<open>
  C9, amended. \<^verbatim>\<open>weighted_sum\<close> computes \<open>(1 - alpha) * a + alpha * b\<close> in every element,
  each operation rounded to the format of the tensors; for finite tensors \<open>a\<close> and \<open>b\<close>
  of the same shape, \<open>alpha = 0\<close> returns \<open>a\<close> and \<open>alpha = 1\<close> returns \<open>b\<close> (so blending
  a finite tensor with itself returns it at these two values of \<open>alpha\<close>).
\<close>

theorem weighted_sum_rounded_endpoints:
  assumes "valid_format fmt" "length a = length b"
    and "\<forall>x \<in> set a. finite_float fmt x" "\<forall>y \<in> set b. finite_float fmt y"
  shows "weighted_sum_rounded fmt a b 0 = a \<and> weighted_sum_rounded fmt a b 1 = b
       \<and> length (weighted_sum_rounded fmt a b alpha) = length a
       \<and> (\<forall>i < length a. weighted_sum_rounded fmt a b alpha ! i =
             radd fmt (rmul fmt (round_fval fmt (rnd binary64 (1 - alpha))) (a ! i))
                      (rmul fmt (rnd fmt alpha) (b ! i)))"
proof (intro conjI)
  have el: "finite_float fmt (a ! i)" "finite_float fmt (b ! i)" if "i < length a" for i
    using that assms(2-4) by (simp_all add: all_set_conv_all_nth)
  show "weighted_sum_rounded fmt a b 0 = a"
    using assms(2) weighted_sum_rounded_endpoint_values(1) [OF assms(1) el]
    by (simp add: weighted_sum_rounded_def Let_def list_eq_iff_nth_eq)
  show "weighted_sum_rounded fmt a b 1 = b"
    using assms(2) weighted_sum_rounded_endpoint_values(2) [OF assms(1) el]
    by (simp add: weighted_sum_rounded_def Let_def list_eq_iff_nth_eq)
  show "length (weighted_sum_rounded fmt a b alpha) = length a"
    using assms(2) by (simp add: weighted_sum_rounded_def Let_def)
  show "\<forall>i < length a. weighted_sum_rounded fmt a b alpha ! i =
             radd fmt (rmul fmt (round_fval fmt (rnd binary64 (1 - alpha))) (a ! i))
                      (rmul fmt (rnd fmt alpha) (b ! i))"
    using assms(2) by (simp add: weighted_sum_rounded_def Let_def)
qed

theorem weighted_sum_rounded_endpoints_witness:
  "valid_format binary32 \<and> length [Fin 1, Fin (5 / 2)] = length [Fin 3, Fin (- 7)]
   \<and> finite_float binary32 (Fin 1) \<and> finite_float binary32 (Fin (5 / 2))
   \<and> finite_float binary32 (Fin 3) \<and> finite_float binary32 (Fin (- 7))
   \<and> weighted_sum_rounded binary32 [Fin 1, Fin (5 / 2)] [Fin 3, Fin (- 7)] 0 = [Fin 1, Fin (5 / 2)]
   \<and> weighted_sum_rounded binary32 [Fin 1, Fin (5 / 2)] [Fin 3, Fin (- 7)] 1 = [Fin 3, Fin (- 7)]
   \<and> weighted_sum_rounded binary32 [Fin 1, Fin (5 / 2)] [Fin 3, Fin (- 7)] (1 / 2)
       = [Fin 2, Fin (- 9 / 4)]"
proof -
  have f: "finite_float binary32 (Fin 1)" "finite_float binary32 (Fin (5 / 2))"
      "finite_float binary32 (Fin 3)" "finite_float binary32 (Fin (- 7))"
    by (simp_all add: representable_def rnd_eval binary32_def)
  have h: "weighted_sum_rounded binary32 [Fin 1, Fin (5 / 2)] [Fin 3, Fin (- 7)] (1 / 2)
       = [Fin 2, Fin (- 9 / 4)]"
    by (simp add: weighted_sum_rounded_def radd_def rmul_def rnd_eval binary32_def binary64_def)
  show ?thesis
    using weighted_sum_rounded_endpoints [of binary32 "[Fin 1, Fin (5 / 2)]" "[Fin 3, Fin (- 7)]"] f h
    by simp
qed




text \<open>
  C1. Whenever the trim step of \<^verbatim>\<open>ties_sum\<close> has gone through and the trimmed deltas
  stack, \<^verbatim>\<open>ties_sum\<close> returns without error, and at every element where the elected
  sign is 0 while the sign of every trimmed delta is \<open>+1\<close> or \<open>-1\<close>, no delta matches
  the elected sign, \<^verbatim>\<open>param_counts\<close> is 0 and the result is 0: the NaN of \<open>0 / 0\<close> is
  replaced by 0. The trim step does go through for \<open>n \<ge> 1\<close> deltas of a common non-zero
  size and \<open>k \<ge> 0\<close> (the rank given to \<^verbatim>\<open>kthvalue\<close> is then in range).
\<close>

theorem ties_sum_zero_agreement:
  "(trim_deltas models k = Inr deltas \<and> stack deltas = Inr deltas \<longrightarrow>
      (\<exists>out. ties_sum models k vote_sgn = Inr out
         \<and> length out = length (hd deltas)
         \<and> (\<forall>i < length (hd deltas).
               final_sign deltas vote_sgn ! i = 0
               \<and> (\<forall>t < length deltas. sgn (deltas ! t ! i) = 1 \<or> sgn (deltas ! t ! i) = - 1)
               \<longrightarrow> (\<forall>t < length deltas. delta_filters deltas vote_sgn ! t ! i = 0)
                   \<and> param_counts deltas vote_sgn ! i = 0
                   \<and> out ! i = 0)))
   \<and> (models \<noteq> [] \<and> (\<forall>m \<in> set models. length m = d) \<and> 0 < d \<and> 0 \<le> k \<longrightarrow>
        (\<exists>trimmed. trim_deltas models k = Inr trimmed \<and> stack trimmed = Inr trimmed
           \<and> length trimmed = length models \<and> length (hd trimmed) = d))"
proof (intro conjI impI)
  assume "trim_deltas models k = Inr deltas \<and> stack deltas = Inr deltas"
  then show "\<exists>out. ties_sum models k vote_sgn = Inr out
         \<and> length out = length (hd deltas)
         \<and> (\<forall>i < length (hd deltas).
               final_sign deltas vote_sgn ! i = 0
               \<and> (\<forall>t < length deltas. sgn (deltas ! t ! i) = 1 \<or> sgn (deltas ! t ! i) = - 1)
               \<longrightarrow> (\<forall>t < length deltas. delta_filters deltas vote_sgn ! t ! i = 0)
                   \<and> param_counts deltas vote_sgn ! i = 0
                   \<and> out ! i = 0)"
    using zero_agreement_elements by blast
next
  assume wf: "models \<noteq> [] \<and> (\<forall>m \<in> set models. length m = d) \<and> 0 < d \<and> 0 \<le> k"
  then obtain trimmed where tr: "trim_deltas models k = Inr trimmed"
      and len: "length trimmed = length models" and rows: "\<forall>r \<in> set trimmed. length r = d"
    using trim_deltas_succeeds [of models d k] by blast
  have ne: "trimmed \<noteq> []" using len wf by auto
  then have hd: "length (hd trimmed) = d" using rows by (cases trimmed) simp_all
  have "stack trimmed = Inr trimmed" using ne rows hd by (simp add: stack_def)
  then show "\<exists>trimmed. trim_deltas models k = Inr trimmed \<and> stack trimmed = Inr trimmed
           \<and> length trimmed = length models \<and> length (hd trimmed) = d"
    using tr len hd by blast
qed

theorem ties_sum_zero_agreement_witness:
  "[[1, 2], [- 1, 3 :: real]] \<noteq> [] \<and> length [1, 2 :: real] = 2 \<and> length [- 1, 3 :: real] = 2
   \<and> trim_deltas [[1, 2], [- 1, 3]] 1 = Inr [[1, 2], [- 1, 3]]
   \<and> stack [[1, 2], [- 1, 3 :: real]] = Inr [[1, 2], [- 1, 3]]
   \<and> final_sign [[1, 2], [- 1, 3]] 0 ! 0 = 0
   \<and> sgn ([[1, 2], [- 1, 3 :: real]] ! 0 ! 0) = 1 \<and> sgn ([[1, 2], [- 1, 3 :: real]] ! 1 ! 0) = - 1
   \<and> param_counts [[1, 2], [- 1, 3]] 0 ! 0 = 0
   \<and> ties_sum [[1, 2], [- 1, 3]] 1 0 = Inr [0, 5 / 2]"
  using ties_sum_zero_agreement [where models = "[[1, 2], [- 1, 3]]" and d = 2 and k = 1
      and vote_sgn = 0 and deltas = "[[1, 2], [- 1, 3]]"]
  by (simp add: ties_sum_def ties_sum_deltas_def filter_top_k_def kthvalue_def top_k_rank_def
      py_int_def stack_def filtered_delta_def param_counts_def delta_filters_def final_sign_def
      signs_def sum_dim0_def fdiv_def)




text \<open>
  C2. \<^verbatim>\<open>crossover\<close> returns \<open>a\<close> at \<open>alpha = 0\<close> and \<open>b\<close> at \<open>alpha = 1\<close>, and
  \<^verbatim>\<open>weighted_sum(a, b, alpha)\<close> at \<open>tilt = 1\<close> (lemma \<open>crossover_short_circuits\<close>).
  For a 0-dimensional \<open>a\<close>, or operands that are close at half precision, the code
  blends with \<open>tilt\<close> in the place of \<open>alpha\<close>: for the scalars 1 and 3,
  \<open>alpha = 1/2\<close> and \<open>tilt = 0\<close> the result is 1, where the weighted sum with
  \<open>alpha\<close> is 2.
\<close>

theorem crossover_scalar_blends_by_tilt:
  "crossover allclose_half fft_blend
      \<lparr>shape = [], data = [1]\<rparr> \<lparr>shape = [], data = [3]\<rparr> (1 / 2) 0
     = Inr \<lparr>shape = [], data = [1]\<rparr>
   \<and> weighted_sum [1] [3] (1 / 2) = [2]"
  by (simp add: crossover_def weighted_sum_def)

text \<open>
  C5. At \<open>tilt = 0\<close> the filter is the strict comparison \<open>mesh > 1 - alpha\<close>. The mesh
  never exceeds 1, so at \<open>alpha = 0\<close> the filter is all-zero for every shape of at least
  one axis (lemma \<open>create_filter_alpha_zero\<close>). But the mesh is 0 at the zero-frequency
  entry, so at \<open>alpha = 1\<close> that entry of the filter is 0, for every shape of positive
  sizes (lemma \<open>create_filter_alpha_one_dc\<close>), and the filter is not all-one: for the
  shape \<open>(2,)\<close> it is \<open>[0, 1]\<close>.
\<close>

theorem create_filter_alpha_one_zero_frequency:
  "create_filter [2] 1 0 = Inr \<lparr>shape = [2], data = [0, 1]\<rparr>"
  by (simp add: create_filter_def normalize_tilt_def mesh_of_def gradients_def gradient_def
      linspace_def EPSILON_def upt_rec)

text \<open>
  C8, as stated: for every \<open>alpha\<close> in \<open>[0, 1]\<close>, every shape and every tilt a filter is
  returned. For the empty shape \<open>()\<close> the list of gradients is empty and
  \<^verbatim>\<open>gradients[0]\<close> raises \<^verbatim>\<open>IndexError\<close>.
\<close>

theorem create_filter_empty_shape_counterexample:
  "(0::real) \<le> 1 / 2 \<and> (1::real) / 2 \<le> 1 \<and> create_filter [] (1 / 2) 0 = Inl IndexError"
  by (simp add: create_filter_def normalize_tilt_def mesh_of_def gradients_def)

text \<open>
  C8, amended: \<^verbatim>\<open>create_filter\<close> raises the validation error if and only if
  \<open>alpha\<close> is outside \<open>[0, 1]\<close>; for every \<open>alpha\<close> in \<open>[0, 1]\<close>, every shape of at
  least one axis and every real tilt it returns a filter of that shape; and whenever the
  ramp branch is reached the reciprocal of the tangent is defined (the tilts with zero
  tangent have been diverted to the hard-threshold branches).
\<close>

theorem create_filter_raises_iff:
  "(create_filter shp alpha tilt = Inl ValueError \<longleftrightarrow> \<not> (0 \<le> alpha \<and> alpha \<le> 1))
   \<and> (0 \<le> alpha \<and> alpha \<le> 1 \<and> shp \<noteq> [] \<longrightarrow>
        (\<exists>f. create_filter shp alpha tilt = Inr f \<and> shape f = shp))
   \<and> (\<not> (normalize_tilt tilt < EPSILON \<or> \<bar>normalize_tilt tilt - 4\<bar> < EPSILON)
        \<and> \<not> \<bar>normalize_tilt tilt - 2\<bar> < EPSILON \<longrightarrow>
        (\<exists>c. recip_tan (pi * normalize_tilt tilt / 2) = Inr c))"
proof (intro conjI impI)
  let ?t = "normalize_tilt tilt"
  have rt: "\<exists>c. recip_tan (pi * ?t / 2) = Inr c"
    if "\<not> (?t < EPSILON \<or> \<bar>?t - 4\<bar> < EPSILON)" "\<not> \<bar>?t - 2\<bar> < EPSILON"
    using recip_tan_defined [OF that normalize_tilt_range(2)] .
  show "create_filter shp alpha tilt = Inl ValueError \<longleftrightarrow> \<not> (0 \<le> alpha \<and> alpha \<le> 1)"
  proof
    assume v: "create_filter shp alpha tilt = Inl ValueError"
    show "\<not> (0 \<le> alpha \<and> alpha \<le> 1)"
    proof
      assume a: "0 \<le> alpha \<and> alpha \<le> 1"
      show False
      proof (cases "mesh_of shp")
        case (Inl e)
        then have "create_filter shp alpha tilt = Inl e"
          using a by (simp add: create_filter_def Let_def)
        then show False using v Inl mesh_of_not_ValueError by auto
      next
        case (Inr m)
        show False
        proof (cases "?t < EPSILON \<or> \<bar>?t - 4\<bar> < EPSILON")
          case True
          then show False using v a Inr by (simp add: create_filter_def Let_def)
        next
          case f1: False
          show False
          proof (cases "\<bar>?t - 2\<bar> < EPSILON")
            case True
            then show False using v a Inr f1 by (simp add: create_filter_def Let_def)
          next
            case f2: False
            obtain c where "recip_tan (pi * ?t / 2) = Inr c" using rt [OF f1 f2] by blast
            then show False using v a Inr f1 f2 by (simp add: create_filter_def Let_def)
          qed
        qed
      qed
    qed
  next
    assume "\<not> (0 \<le> alpha \<and> alpha \<le> 1)"
    then show "create_filter shp alpha tilt = Inl ValueError"
      by (simp add: create_filter_def)
  qed
next
  let ?t = "normalize_tilt tilt"
  assume a: "0 \<le> alpha \<and> alpha \<le> 1 \<and> shp \<noteq> []"
  then obtain m where m: "mesh_of shp = Inr m" using mesh_of_defined by blast
  show "\<exists>f. create_filter shp alpha tilt = Inr f \<and> shape f = shp"
  proof (cases "?t < EPSILON \<or> \<bar>?t - 4\<bar> < EPSILON")
    case True
    then show ?thesis using a m by (simp add: create_filter_def Let_def)
  next
    case f1: False
    show ?thesis
    proof (cases "\<bar>?t - 2\<bar> < EPSILON")
      case True
      then show ?thesis using a m f1 by (simp add: create_filter_def Let_def)
    next
      case f2: False
      obtain c where "recip_tan (pi * ?t / 2) = Inr c"
        using recip_tan_defined [OF f1 f2 normalize_tilt_range(2)] by blast
      then show ?thesis using a m f1 f2 by (simp add: create_filter_def Let_def)
    qed
  qed
next
  assume "\<not> (normalize_tilt tilt < EPSILON \<or> \<bar>normalize_tilt tilt - 4\<bar> < EPSILON)
        \<and> \<not> \<bar>normalize_tilt tilt - 2\<bar> < EPSILON"
  then show "\<exists>c. recip_tan (pi * normalize_tilt tilt / 2) = Inr c"
    using recip_tan_defined normalize_tilt_range(2) by blast
qed

theorem create_filter_raises_iff_witness:
  "create_filter [2] 2 (1 / 2) = Inl ValueError
   \<and> (0::real) \<le> 1 / 2 \<and> (1::real) / 2 \<le> 1 \<and> [2::nat] \<noteq> []
   \<and> create_filter [2] (1 / 2) (1 / 2) = Inr \<lparr>shape = [2], data = [0, 1]\<rparr>
   \<and> \<not> (normalize_tilt (1 / 2) < EPSILON \<or> \<bar>normalize_tilt (1 / 2) - 4\<bar> < EPSILON)
   \<and> \<not> \<bar>normalize_tilt (1 / 2) - 2\<bar> < EPSILON
   \<and> recip_tan (pi * normalize_tilt (1 / 2) / 2) = Inr 1"
  using create_filter_raises_iff [of "[2]" "1 / 2" "1 / 2"]
  by (simp add: create_filter_def normalize_tilt_def mesh_of_def gradients_def gradient_def
      linspace_def EPSILON_def upt_rec recip_tan_def sin_45 cos_45 clip_def)





text \<open>
  C6, as stated: whenever the interpolation result holds a non-finite value, NaN or
  infinity, the weighted sum is returned. The code tests \<^verbatim>\<open>res.isnan().any()\<close> only.
  For \<open>a\<close> with two elements of the greatest finite value the norm overflows to
  infinity, the normalised \<open>a\<close> is 0, and with \<open>b = [3, 4]\<close> and \<open>alpha = 1/3\<close> the
  result is \<open>[0.3, 0.4]\<close> times an infinite scale: two infinities and no NaN. They
  are returned, although the weighted sum is finite.
\<close>

theorem slerp_infinite_result_counterexample:
  "slerp [Fin float_max, Fin float_max] [Fin 3, Fin 4] (1 / 3) = [PInf, PInf]
   \<and> \<not> is_finite PInf
   \<and> weighted_sum_fl [Fin float_max, Fin float_max] [Fin 3, Fin 4] (1 / 3)
       = [Fin (2 * float_max / 3 + 1), Fin (2 * float_max / 3 + 4 / 3)]"
proof -
  have "slerp_res [Fin float_max, Fin float_max] [Fin 3, Fin 4] (1 / 3) = [PInf, PInf]"
    using float_max_large pi_in_range
    by (simp add: slerp_res_def slerp_dot_overflowed tensor_norm_overflows
        tensor_norm_3_4 omul_def oadd_def odivide_def fdiv_def Let_def weighted_sum_fl_def
        inf_of_sign_def sin_30 sin_60)
  then have "slerp [Fin float_max, Fin float_max] [Fin 3, Fin 4] (1 / 3) = [PInf, PInf]"
    by (simp add: slerp_def)
  moreover have "weighted_sum_fl [Fin float_max, Fin float_max] [Fin 3, Fin 4] (1 / 3)
       = [Fin (2 * float_max / 3 + 1), Fin (2 * float_max / 3 + 4 / 3)]"
    using float_max_large by (simp add: weighted_sum_fl_def omul_def oadd_def)
  ultimately show ?thesis by simp
qed

text \<open>
  C6, amended: the value given to \<^verbatim>\<open>arccos\<close> is the dot product clamped to
  \<open>[-1, 1]\<close> (or NaN), so that the angle is a finite value in \<open>[0, pi]\<close> unless the
  dot product is NaN; whenever the interpolation result holds a NaN, \<^verbatim>\<open>slerp\<close>
  returns \<^verbatim>\<open>weighted_sum(a, b, alpha)\<close>; otherwise it returns the interpolation result
  (also when that holds infinities).
\<close>

theorem slerp_nan_fallback:
  "(slerp_dot a b = NaN \<or> (\<exists>c. slerp_dot a b = Fin c \<and> - 1 \<le> c \<and> c \<le> 1))
   \<and> (slerp_dot a b \<noteq> NaN \<longrightarrow>
        (\<exists>omega. farccos (slerp_dot a b) = Fin omega \<and> 0 \<le> omega \<and> omega \<le> pi))
   \<and> ((\<exists>x \<in> set (slerp_res a b alpha). is_nan x) \<longrightarrow>
        slerp a b alpha = weighted_sum_fl a b alpha)
   \<and> (\<not> (\<exists>x \<in> set (slerp_res a b alpha). is_nan x) \<longrightarrow>
        slerp a b alpha = slerp_res a b alpha)"
proof (intro conjI impI)
  show rng: "slerp_dot a b = NaN \<or> (\<exists>c. slerp_dot a b = Fin c \<and> - 1 \<le> c \<and> c \<le> 1)"
    unfolding slerp_dot_def Let_def by (rule fclamp_unit_range)
  show "\<exists>omega. farccos (slerp_dot a b) = Fin omega \<and> 0 \<le> omega \<and> omega \<le> pi"
    if "slerp_dot a b \<noteq> NaN"
  proof -
    from rng that obtain c where c: "slerp_dot a b = Fin c" "- 1 \<le> c" "c \<le> 1" by auto
    then show ?thesis by (simp add: arccos_lbound arccos_ubound)
  qed
  show "slerp a b alpha = weighted_sum_fl a b alpha"
    if "\<exists>x \<in> set (slerp_res a b alpha). is_nan x"
    using that by (simp add: slerp_def Let_def)
  show "slerp a b alpha = slerp_res a b alpha"
    if "\<not> (\<exists>x \<in> set (slerp_res a b alpha). is_nan x)"
    using that by (simp add: slerp_def Let_def)
qed

theorem slerp_nan_fallback_witness:
  "slerp_dot [Fin 1] [Fin 1] = Fin 1
   \<and> slerp_res [Fin 1] [Fin 1] (1 / 2) = [NaN]
   \<and> slerp [Fin 1] [Fin 1] (1 / 2) = [Fin 1]
   \<and> slerp_dot [Fin 1, Fin 0] [Fin 0, Fin 1] = Fin 0
   \<and> slerp_res [Fin 1, Fin 0] [Fin 0, Fin 1] 1 = [Fin 0, Fin 1]
   \<and> slerp [Fin 1, Fin 0] [Fin 0, Fin 1] 1 = [Fin 0, Fin 1]"
  using slerp_nan_fallback [of "[Fin 1]" "[Fin 1]" "1 / 2"]
    slerp_nan_fallback [of "[Fin 1, Fin 0]" "[Fin 0, Fin 1]" 1]
    float_max_large pi_in_range
  by (simp add: slerp_def slerp_res_def slerp_dot_def tensor_norm_def osum_def omul_def oadd_def
      odivide_def fdiv_def Let_def weighted_sum_fl_def inf_of_sign_def)

end
